theory Spec2Isabelle
  imports Main "HOL-Library.Sublist" "HOL-Library.Multiset"
begin

section \<open>Data model of \<^verbatim>\<open>moonworm/crawler/function_call_crawler.py\<close>\<close>

text \<open>
  Values Python stores under \<^verbatim>\<open>Dict[str, Any]\<close>: the decoded arguments of a call.
\<close>

datatype py_value = PyInt int | PyStr string | PyBool bool | PyList "py_value list"

text \<open>
  The dataclass \<^verbatim>\<open>ContractFunctionCall\<close>. Block numbers and timestamps are Python
  integers, hence unbounded. \<^verbatim>\<open>function_args\<close> is a dict; an association list keeps its
  insertion order.
\<close>

record ContractFunctionCall =
  block_number :: int
  block_timestamp :: int
  transaction_hash :: string
  contract_address :: string
  caller_address :: string
  function_name :: string
  function_args :: "(string \<times> py_value) list"

text \<open>
  A transaction as \<^verbatim>\<open>process_transaction\<close> reads it: the dict keys \<^verbatim>\<open>"data"\<close>,
  \<^verbatim>\<open>"block_number"\<close>, \<^verbatim>\<open>"hash"\<close>, \<^verbatim>\<open>"to"\<close> and \<^verbatim>\<open>"from"\<close>.
\<close>

record transaction =
  tx_hash :: string
  tx_from :: string
  tx_to :: string
  tx_data :: string
  tx_block_number :: int

text \<open>
  Exceptions are values. \<^verbatim>\<open>DecodeError\<close> is what \<^verbatim>\<open>decode_function_input\<close> raises,
  \<^verbatim>\<open>TransportError\<close> and \<^verbatim>\<open>NotFoundError\<close> what a chain read raises, \<^verbatim>\<open>StorageError\<close>
  what \<^verbatim>\<open>open\<close>, \<^verbatim>\<open>pickle.dump\<close> and \<^verbatim>\<open>pickle.load\<close> raise. A command that returns
  nothing yields \<open>None\<close> when it returns and \<open>Some e\<close> when it raises \<open>e\<close>.
\<close>

datatype error = DecodeError | TransportError | NotFoundError | StorageError

section \<open>The file system\<close>

text \<open>
  The dict \<^verbatim>\<open>self.state\<close> of \<^verbatim>\<open>PickleFileState\<close>, which is also what is pickled.
  \<^verbatim>\<open>asdict(function_call)\<close> turns the dataclass into a dict with the same seven
  entries, so the list holds the records themselves.
\<close>

record pickle_state =
  last_crawled_block :: int
  calls :: "ContractFunctionCall list"

text \<open>
  A file holds a complete pickle or what an interrupted \<^verbatim>\<open>pickle.dump\<close> left behind.
  The environment fixes the outcome of every attempt to write: attempt number \<open>k\<close>
  (counted by \<open>dumps\<close>) ends as entry \<open>k\<close> of the schedule \<open>faults\<close> says, and every
  attempt beyond the schedule succeeds.
\<close>

datatype file_content = Pickled pickle_state | Truncated

datatype io_outcome = IoOk | OpenFails | WriteFails

record world =
  files :: "string \<rightharpoonup> file_content"
  faults :: "io_outcome list"
  dumps :: nat

definition fault_at :: "world \<Rightarrow> nat \<Rightarrow> io_outcome" where
  "fault_at w k = (if k < length (faults w) then faults w ! k else IoOk)"

text \<open>
  \<^verbatim>\<open>with open(path, "wb") as ofp: pickle.dump(obj, ofp)\<close>. When \<^verbatim>\<open>open\<close> fails the
  file is untouched; when the dump fails the file was already truncated by \<^verbatim>\<open>open\<close>.
\<close>

definition pickle_dump :: "pickle_state \<Rightarrow> string \<Rightarrow> world \<Rightarrow> error option \<times> world" where
  "pickle_dump obj path w =
     (let w1 = w\<lparr>dumps := dumps w + 1\<rparr> in
      case fault_at w (dumps w) of
        IoOk \<Rightarrow> (None, w1\<lparr>files := (files w)(path \<mapsto> Pickled obj)\<rparr>)
      | OpenFails \<Rightarrow> (Some StorageError, w1)
      | WriteFails \<Rightarrow> (Some StorageError, w1\<lparr>files := (files w)(path \<mapsto> Truncated)\<rparr>))"

section \<open>\<^verbatim>\<open>PickleFileState\<close>\<close>

record PickleFileState =
  state :: pickle_state
  pickle_file :: string
  state_file :: string
  batch_size :: int
  cache_size :: int

definition initial_state :: pickle_state where
  "initial_state = \<lparr>last_crawled_block = - 1, calls = []\<rparr>"

text \<open>
  \<^verbatim>\<open>__init__\<close>: writes the initial state when the path does not exist, loads the
  pickle otherwise. The object exists only when the constructor returns. The batch size
  is an argument; a caller that leaves it out passes 100.
\<close>

definition PickleFileState_init ::
  "string \<Rightarrow> int \<Rightarrow> world \<Rightarrow> (error + PickleFileState) \<times> world" where
  "PickleFileState_init path bsize w =
     (case files w path of
        None \<Rightarrow>
          (case pickle_dump initial_state path w of
             (Some e, w') \<Rightarrow> (Inl e, w')
           | (None, w') \<Rightarrow>
               (Inr \<lparr>state = initial_state, pickle_file = path, state_file = path,
                      batch_size = bsize, cache_size = 0\<rparr>, w'))
      | Some Truncated \<Rightarrow> (Inl StorageError, w)
      | Some (Pickled st) \<Rightarrow>
          (Inr \<lparr>state = st, pickle_file = path, state_file = path,
                 batch_size = bsize, cache_size = 0\<rparr>, w))"

definition get_last_crawled_block :: "PickleFileState \<Rightarrow> int" where
  "get_last_crawled_block self = last_crawled_block (state self)"

text \<open>
  The store object and the file system it writes to are threaded together: a method
  takes the pair and returns what it raised, if anything, with the pair as it left it.
\<close>

type_synonym sys = "PickleFileState \<times> world"

fun flush :: "sys \<Rightarrow> error option \<times> sys" where
  "flush (self, w) =
     (case pickle_dump (state self) (pickle_file self) w of
        (Some e, w') \<Rightarrow> (Some e, self, w')
      | (None, w') \<Rightarrow> (None, self\<lparr>cache_size := 0\<rparr>, w'))"

fun register_call :: "ContractFunctionCall \<Rightarrow> sys \<Rightarrow> error option \<times> sys" where
  "register_call function_call (self, w) =
     (let self1 = self\<lparr>state := (state self)\<lparr>calls := calls (state self) @ [function_call]\<rparr>\<rparr>;
          self2 = self1\<lparr>cache_size := cache_size self1 + 1\<rparr>;
          self3 = self2\<lparr>state := (state self2)\<lparr>last_crawled_block := block_number function_call\<rparr>\<rparr>
      in if cache_size self3 = batch_size self3 then flush (self3, w) else (None, self3, w))"

section \<open>The chain reader\<close>

text \<open>
  The abstract class \<^verbatim>\<open>EthereumStateProvider\<close>: three blocking reads, each of which
  may raise.
\<close>

record EthereumStateProvider =
  get_last_block_number :: "error + int"
  get_block_timestamp :: "int \<Rightarrow> error + int"
  get_transactions_to_address :: "string \<Rightarrow> int \<Rightarrow> error + transaction list"

text \<open>
  \<^verbatim>\<open>Web3StateProvider\<close> reads through the client \<^verbatim>\<open>w3.eth\<close>, which is not part of
  the repository: \<^verbatim>\<open>block_number\<close> and \<^verbatim>\<open>get_block\<close> are taken as given.
\<close>

record block_data =
  timestamp :: int
  transactions :: "transaction list"

record web3 =
  eth_block_number :: "error + int"
  eth_get_block :: "int \<Rightarrow> error + block_data"

definition Web3StateProvider :: "web3 \<Rightarrow> EthereumStateProvider" where
  "Web3StateProvider w3 =
     \<lparr>get_last_block_number = eth_block_number w3,
      get_block_timestamp = (\<lambda>bn.
        case eth_get_block w3 bn of
          Inl e \<Rightarrow> Inl e
        | Inr block_data \<Rightarrow> Inr (timestamp block_data)),
      get_transactions_to_address = (\<lambda>address bn.
        case eth_get_block w3 bn of
          Inl e \<Rightarrow> Inl e
        | Inr block_data \<Rightarrow> Inr (filter (\<lambda>tx. tx_to tx = address) (transactions block_data)))\<rparr>"

section \<open>\<^verbatim>\<open>FunctionCallCrawler\<close>\<close>

text \<open>
  The crawler's own fields never change. \<^verbatim>\<open>self.contract\<close> is built by web3 from the
  ABI and is used only through \<^verbatim>\<open>decode_function_input\<close>, which yields the function's
  name and its arguments or raises; that decoder is the field. The store
  \<^verbatim>\<open>self.state\<close> is the mutable part and is passed separately.
\<close>

record FunctionCallCrawler =
  ethereum_state_provider :: EthereumStateProvider
  decode_function_input :: "string \<Rightarrow> error + string \<times> (string \<times> py_value) list"
  contract_addresses :: "string list"

text \<open>A \<^verbatim>\<open>for\<close> loop whose body may raise: the first exception ends the loop.\<close>

fun for_each :: "('a \<Rightarrow> 's \<Rightarrow> error option \<times> 's) \<Rightarrow> 'a list \<Rightarrow> 's \<Rightarrow> error option \<times> 's" where
  "for_each body [] \<sigma> = (None, \<sigma>)"
| "for_each body (x # xs) \<sigma> =
     (case body x \<sigma> of
        (Some e, \<sigma>') \<Rightarrow> (Some e, \<sigma>')
      | (None, \<sigma>') \<Rightarrow> for_each body xs \<sigma>')"

definition process_transaction :: "FunctionCallCrawler \<Rightarrow> transaction \<Rightarrow> sys \<Rightarrow> error option \<times> sys" where
  "process_transaction self tx \<sigma> =
     (case decode_function_input self (tx_data tx) of
        Inl e \<Rightarrow> (Some e, \<sigma>)
      | Inr (fn_name, fn_args) \<Rightarrow>
          (case get_block_timestamp (ethereum_state_provider self) (tx_block_number tx) of
             Inl e \<Rightarrow> (Some e, \<sigma>)
           | Inr ts \<Rightarrow>
               register_call
                 \<lparr>block_number = tx_block_number tx,
                  block_timestamp = ts,
                  transaction_hash = tx_hash tx,
                  contract_address = tx_to tx,
                  caller_address = tx_from tx,
                  function_name = fn_name,
                  function_args = fn_args\<rparr> \<sigma>))"

text \<open>The body of the loop over the addresses, and the body of the loop over the blocks.\<close>

definition crawl_address :: "FunctionCallCrawler \<Rightarrow> int \<Rightarrow> string \<Rightarrow> sys \<Rightarrow> error option \<times> sys" where
  "crawl_address self bn address \<sigma> =
     (case get_transactions_to_address (ethereum_state_provider self) address bn of
        Inl e \<Rightarrow> (Some e, \<sigma>)
      | Inr txs \<Rightarrow> for_each (process_transaction self) txs \<sigma>)"

definition crawl_block :: "FunctionCallCrawler \<Rightarrow> int \<Rightarrow> sys \<Rightarrow> error option \<times> sys" where
  "crawl_block self bn \<sigma> = for_each (crawl_address self bn) (contract_addresses self) \<sigma>"

text \<open>
  \<^verbatim>\<open>crawl\<close>: \<^verbatim>\<open>range(from_block, to_block + 1)\<close> is the list \<open>[from_block..to_block]\<close>.
  The statement \<^verbatim>\<open>self.state.state\<close> that ends the body of the block loop reads an
  attribute and drops it.
\<close>

definition crawl :: "FunctionCallCrawler \<Rightarrow> int \<Rightarrow> int \<Rightarrow> bool \<Rightarrow> sys \<Rightarrow> error option \<times> sys" where
  "crawl self from_block to_block flush_state \<sigma> =
     (case for_each (crawl_block self) [from_block..to_block] \<sigma> of
        (Some e, \<sigma>') \<Rightarrow> (Some e, \<sigma>')
      | (None, \<sigma>') \<Rightarrow> if flush_state then flush \<sigma>' else (None, \<sigma>'))"

section \<open>Notions used to state the properties\<close>

text \<open>
  The record \<^verbatim>\<open>process_transaction\<close> builds from a transaction, or the exception that
  keeps it from being built.
\<close>

definition build_function_call :: "FunctionCallCrawler \<Rightarrow> transaction \<Rightarrow> error + ContractFunctionCall" where
  "build_function_call self tx =
     (case decode_function_input self (tx_data tx) of
        Inl e \<Rightarrow> Inl e
      | Inr (fn_name, fn_args) \<Rightarrow>
          (case get_block_timestamp (ethereum_state_provider self) (tx_block_number tx) of
             Inl e \<Rightarrow> Inl e
           | Inr ts \<Rightarrow>
               Inr \<lparr>block_number = tx_block_number tx,
                    block_timestamp = ts,
                    transaction_hash = tx_hash tx,
                    contract_address = tx_to tx,
                    caller_address = tx_from tx,
                    function_name = fn_name,
                    function_args = fn_args\<rparr>))"

text \<open>The records of those transactions of a list for which a record can be built.\<close>

definition built :: "FunctionCallCrawler \<Rightarrow> transaction list \<Rightarrow> ContractFunctionCall list" where
  "built self txs =
     concat (map (\<lambda>tx. case build_function_call self tx of Inl e \<Rightarrow> [] | Inr fc \<Rightarrow> [fc]) txs)"

text \<open>
  What the reader returns for an address and a block (nothing when it raises), and the
  transactions of a block range in the order of the nested scan: blocks ascending, the
  addresses of a block in the order of the configured list, the transactions of an
  address in the reader's order.
\<close>

definition fetched :: "FunctionCallCrawler \<Rightarrow> int \<Rightarrow> string \<Rightarrow> transaction list" where
  "fetched self bn address =
     (case get_transactions_to_address (ethereum_state_provider self) address bn of
        Inl e \<Rightarrow> []
      | Inr txs \<Rightarrow> txs)"

definition visit_order :: "FunctionCallCrawler \<Rightarrow> int \<Rightarrow> int \<Rightarrow> transaction list" where
  "visit_order self from_block to_block =
     concat (map (\<lambda>bn. concat (map (fetched self bn) (contract_addresses self)))
                 [from_block..to_block])"

text \<open>A record can be built from the transaction: it decodes and its block's timestamp is read.\<close>

definition buildable :: "FunctionCallCrawler \<Rightarrow> transaction \<Rightarrow> bool" where
  "buildable self tx = (case build_function_call self tx of Inl e \<Rightarrow> False | Inr fc \<Rightarrow> True)"

text \<open>
  How a run of store operations relates the store before it to the store after it: the
  calls it appended, the cursor it left, and what it cannot change.
\<close>

definition extends :: "sys \<Rightarrow> ContractFunctionCall list \<Rightarrow> sys \<Rightarrow> bool" where
  "extends \<sigma> fcs \<sigma>' \<longleftrightarrow>
     calls (state (fst \<sigma>')) = calls (state (fst \<sigma>)) @ fcs
   \<and> get_last_crawled_block (fst \<sigma>') = last (get_last_crawled_block (fst \<sigma>) # map block_number fcs)
   \<and> pickle_file (fst \<sigma>') = pickle_file (fst \<sigma>)
   \<and> batch_size (fst \<sigma>') = batch_size (fst \<sigma>)
   \<and> faults (snd \<sigma>') = faults (snd \<sigma>)
   \<and> dumps (snd \<sigma>) \<le> dumps (snd \<sigma>')"

text \<open>
  What the nested scan of a block range meets, in order: a transaction the reader
  returned, or a request the reader did not answer. One step of the scan processes the
  transaction, or raises what the reader raised.
\<close>

datatype visit = Visit transaction | ReadFails error

definition scan :: "FunctionCallCrawler \<Rightarrow> int \<Rightarrow> int \<Rightarrow> visit list" where
  "scan self from_block to_block =
     concat (map (\<lambda>bn.
       concat (map (\<lambda>address.
           case get_transactions_to_address (ethereum_state_provider self) address bn of
             Inl e \<Rightarrow> [ReadFails e]
           | Inr txs \<Rightarrow> map Visit txs)
         (contract_addresses self)))
       [from_block..to_block])"

fun visit_step :: "FunctionCallCrawler \<Rightarrow> visit \<Rightarrow> sys \<Rightarrow> error option \<times> sys" where
  "visit_step self (Visit tx) \<sigma> = process_transaction self tx \<sigma>"
| "visit_step self (ReadFails e) \<sigma> = (Some e, \<sigma>)"

text \<open>
  The transactions of the blocks of a range whose destination is one of the given
  addresses, in the order of the chain, as the client \<^verbatim>\<open>w3.eth\<close> shows them.
\<close>

definition matching_transactions :: "web3 \<Rightarrow> string list \<Rightarrow> int \<Rightarrow> int \<Rightarrow> transaction list" where
  "matching_transactions w3 addresses from_block to_block =
     concat (map (\<lambda>bn.
       case eth_get_block w3 bn of
         Inl e \<Rightarrow> []
       | Inr block_data \<Rightarrow> filter (\<lambda>tx. tx_to tx \<in> set addresses) (transactions block_data))
       [from_block..to_block])"

text \<open>The reader answers every request of a scan of the range.\<close>

definition reader_ok :: "FunctionCallCrawler \<Rightarrow> int \<Rightarrow> int \<Rightarrow> bool" where
  "reader_ok self from_block to_block =
     list_all (\<lambda>bn.
       list_all (\<lambda>address.
           case get_transactions_to_address (ethereum_state_provider self) address bn of
             Inl e \<Rightarrow> False
           | Inr txs \<Rightarrow> True)
         (contract_addresses self))
       [from_block..to_block]"

text \<open>Every write attempted from now on succeeds.\<close>

definition writes_ok :: "world \<Rightarrow> bool" where
  "writes_ok w = list_all (\<lambda>outcome. outcome = IoOk) (drop (dumps w) (faults w))"

text \<open>
  Two commands run one after the other, as two statements of a script are: when the
  first raises, the second is not run.
\<close>

definition followed_by ::
  "('s \<Rightarrow> error option \<times> 's) \<Rightarrow> ('s \<Rightarrow> error option \<times> 's) \<Rightarrow> 's \<Rightarrow> error option \<times> 's" where
  "followed_by c1 c2 \<sigma> =
     (case c1 \<sigma> of
        (Some e, \<sigma>') \<Rightarrow> (Some e, \<sigma>')
      | (None, \<sigma>') \<Rightarrow> c2 \<sigma>')"

text \<open>
  A caller that invokes \<^verbatim>\<open>register_call\<close> on each call of a list in turn, going on
  whatever an invocation raises: the store and the file system after each invocation.
\<close>

fun register_trace :: "ContractFunctionCall list \<Rightarrow> sys \<Rightarrow> sys list" where
  "register_trace [] \<sigma> = []"
| "register_trace (c # cs) \<sigma> =
     (let \<sigma>' = snd (register_call c \<sigma>) in \<sigma>' # register_trace cs \<sigma>')"

definition register_all :: "ContractFunctionCall list \<Rightarrow> sys \<Rightarrow> sys" where
  "register_all cs \<sigma> = fold (\<lambda>c \<sigma>'. snd (register_call c \<sigma>')) cs \<sigma>"

section \<open>A small chain, used to run the definitions\<close>

definition ex_call :: "int \<Rightarrow> ContractFunctionCall" where
  "ex_call bn =
     \<lparr>block_number = bn, block_timestamp = 1000 + bn, transaction_hash = ''0xh'',
      contract_address = ''0xAAA'', caller_address = ''0xCCC'',
      function_name = ''transfer'',
      function_args = [(''to'', PyStr ''0xBBB''), (''amount'', PyInt 5)]\<rparr>"

definition ex_world :: world where
  "ex_world = \<lparr>files = Map.empty, faults = [], dumps = 0\<rparr>"

text \<open>The file system once a store has been constructed on the empty one.\<close>

definition ex_world1 :: world where
  "ex_world1 =
     \<lparr>files = [''state.pickle'' \<mapsto> Pickled initial_state], faults = [], dumps = 1\<rparr>"

text \<open>A file system whose first write fails at \<^verbatim>\<open>open\<close>.\<close>

definition ex_faulty :: world where
  "ex_faulty = \<lparr>files = Map.empty, faults = [OpenFails], dumps = 0\<rparr>"

definition ex_store :: "int \<Rightarrow> PickleFileState" where
  "ex_store bsize =
     \<lparr>state = initial_state, pickle_file = ''state.pickle'', state_file = ''state.pickle'',
      batch_size = bsize, cache_size = 0\<rparr>"

text \<open>
  Blocks 5, 6 and 7 hold transactions: block 5 one to each of two watched addresses and
  one to an address that is not watched, block 6 one whose payload does not decode,
  block 7 one that decodes. Every other block is empty. The watched addresses are
  listed in the order opposite to the one their transactions have in block 5.
\<close>

definition ex_tx :: "int \<Rightarrow> string \<Rightarrow> string \<Rightarrow> transaction" where
  "ex_tx bn to_address data =
     \<lparr>tx_hash = ''0xh'', tx_from = ''0xCCC'', tx_to = to_address, tx_data = data, tx_block_number = bn\<rparr>"

definition ex_block :: "int \<Rightarrow> transaction list" where
  "ex_block bn =
     (if bn = 5 then [ex_tx 5 ''0xAAA'' ''transfer'', ex_tx 5 ''0xZZZ'' ''transfer'', ex_tx 5 ''0xBBB'' ''transfer'']
      else if bn = 6 then [ex_tx 6 ''0xAAA'' ''garbage'']
      else if bn = 7 then [ex_tx 7 ''0xAAA'' ''transfer'']
      else [])"

definition ex_w3 :: web3 where
  "ex_w3 = \<lparr>eth_block_number = Inr 9,
            eth_get_block = (\<lambda>bn. Inr \<lparr>timestamp = 1000 + bn, transactions = ex_block bn\<rparr>)\<rparr>"

definition ex_decode :: "string \<Rightarrow> error + string \<times> (string \<times> py_value) list" where
  "ex_decode data =
     (if data = ''transfer'' then Inr (''transfer'', [(''to'', PyStr ''0xBBB''), (''amount'', PyInt 5)])
      else Inl DecodeError)"

definition ex_crawler :: FunctionCallCrawler where
  "ex_crawler =
     \<lparr>ethereum_state_provider = Web3StateProvider ex_w3,
      decode_function_input = ex_decode,
      contract_addresses = [''0xBBB'', ''0xAAA'']\<rparr>"

text \<open>A store that holds one call of an earlier crawl.\<close>

definition ex_resumed :: PickleFileState where
  "ex_resumed = (ex_store 100)\<lparr>state := \<lparr>last_crawled_block = 3, calls = [ex_call 3]\<rparr>\<rparr>"

text \<open>The same chain behind a reader that knows no block from 7 on.\<close>

definition ex_late_w3 :: web3 where
  "ex_late_w3 = \<lparr>eth_block_number = Inr 6,
                 eth_get_block = (\<lambda>bn. if 7 \<le> bn then Inl NotFoundError
                                        else Inr \<lparr>timestamp = 1000 + bn, transactions = ex_block bn\<rparr>)\<rparr>"

definition ex_late_crawler :: FunctionCallCrawler where
  "ex_late_crawler =
     \<lparr>ethereum_state_provider = Web3StateProvider ex_late_w3,
      decode_function_input = ex_decode,
      contract_addresses = [''0xBBB'', ''0xAAA'']\<rparr>"

text \<open>A store with one call registered and not yet flushed.\<close>

definition ex_pending :: PickleFileState where
  "ex_pending =
     (ex_store 100)\<lparr>state := \<lparr>last_crawled_block = 3, calls = [ex_call 3]\<rparr>, cache_size := 1\<rparr>"

section \<open>The store's file\<close>

lemma fault_at_dumps [simp]: "fault_at (w\<lparr>dumps := d\<rparr>) k = fault_at w k"
  by (simp add: fault_at_def)

lemma fault_at_files [simp]: "fault_at (w\<lparr>files := f\<rparr>) k = fault_at w k"
  by (simp add: fault_at_def)

lemma writes_ok_iff: "writes_ok w \<longleftrightarrow> (\<forall>k \<ge> dumps w. fault_at w k = IoOk)"
proof
  assume ok: "writes_ok w"
  show "\<forall>k \<ge> dumps w. fault_at w k = IoOk"
  proof (intro allI impI)
    fix k assume k: "dumps w \<le> k"
    show "fault_at w k = IoOk"
    proof (cases "k < length (faults w)")
      case True
      with k have "faults w ! k = drop (dumps w) (faults w) ! (k - dumps w)"
        and "k - dumps w < length (drop (dumps w) (faults w))"
        by simp_all
      then have "faults w ! k \<in> set (drop (dumps w) (faults w))"
        by (metis nth_mem)
      with ok True show ?thesis
        by (simp add: writes_ok_def list_all_iff fault_at_def)
    next
      case False
      then show ?thesis by (simp add: fault_at_def)
    qed
  qed
next
  assume ok: "\<forall>k \<ge> dumps w. fault_at w k = IoOk"
  have "outcome = IoOk" if "outcome \<in> set (drop (dumps w) (faults w))" for outcome
  proof -
    from that obtain j where j: "j < length (drop (dumps w) (faults w))"
        "drop (dumps w) (faults w) ! j = outcome"
      by (auto simp: in_set_conv_nth)
    then have "dumps w \<le> dumps w + j" "dumps w + j < length (faults w)"
        "faults w ! (dumps w + j) = outcome"
      by simp_all
    then obtain i where i: "dumps w \<le> i" "i < length (faults w)" "faults w ! i = outcome"
      by blast
    with ok have "fault_at w i = IoOk" by simp
    with i show ?thesis by (simp add: fault_at_def)
  qed
  then show "writes_ok w"
    by (simp add: writes_ok_def list_all_iff)
qed

lemma reader_ok_iff:
  "reader_ok self a b \<longleftrightarrow>
     (\<forall>bn \<in> set [a..b]. \<forall>address \<in> set (contract_addresses self).
        \<exists>txs. get_transactions_to_address (ethereum_state_provider self) address bn = Inr txs)"
proof -
  have "(case r of Inl e \<Rightarrow> False | Inr txs \<Rightarrow> True) \<longleftrightarrow> (\<exists>txs. r = Inr txs)"
    for r :: "error + transaction list"
    by (cases r) simp_all
  then show ?thesis
    by (simp add: reader_ok_def list_all_iff)
qed

lemma pickle_dump_ok:
  "fault_at w (dumps w) = IoOk \<Longrightarrow>
   pickle_dump obj path w = (None, w\<lparr>dumps := dumps w + 1, files := (files w)(path \<mapsto> Pickled obj)\<rparr>)"
  by (simp add: pickle_dump_def)

lemma pickle_dump_None:
  "pickle_dump obj path w = (None, w') \<Longrightarrow>
   w' = w\<lparr>dumps := dumps w + 1, files := (files w)(path \<mapsto> Pickled obj)\<rparr>"
  by (auto simp: pickle_dump_def Let_def split: io_outcome.splits)

lemma pickle_dump_dumps:
  "pickle_dump obj path w = (r, w') \<Longrightarrow> dumps w' = dumps w + 1 \<and> faults w' = faults w"
  by (auto simp: pickle_dump_def Let_def split: io_outcome.splits)

lemma flush_Some:
  "flush (self, w) = (Some e, \<sigma>') \<Longrightarrow>
   fst \<sigma>' = self \<and> e = StorageError \<and> dumps (snd \<sigma>') = dumps w + 1 \<and> faults (snd \<sigma>') = faults w"
  by (auto simp: pickle_dump_def Let_def split: io_outcome.splits prod.splits option.splits)

lemma flush_None:
  "flush (self, w) = (None, \<sigma>') \<Longrightarrow>
   \<sigma>' = (self\<lparr>cache_size := 0\<rparr>,
         w\<lparr>dumps := dumps w + 1, files := (files w)(pickle_file self \<mapsto> Pickled (state self))\<rparr>)"
  by (auto simp: pickle_dump_def Let_def split: io_outcome.splits prod.splits option.splits)

lemma flush_ok:
  "fault_at w (dumps w) = IoOk \<Longrightarrow>
   flush (self, w) =
     (None, self\<lparr>cache_size := 0\<rparr>,
      w\<lparr>dumps := dumps w + 1, files := (files w)(pickle_file self \<mapsto> Pickled (state self))\<rparr>)"
  by (simp add: pickle_dump_ok)

declare flush.simps [simp del]

text \<open>
  C10. Constructing a \<^verbatim>\<open>PickleFileState\<close> on a path that does not exist writes the
  initial blob, cursor \<open>-1\<close> and no calls, to that path at once, as the constructor's
  one write, and the fresh store's \<^verbatim>\<open>get_last_crawled_block()\<close> is \<open>-1\<close>. The write is
  taken to succeed.
\<close>

theorem init_writes_initial_blob:
  assumes "files w path = None" and "fault_at w (dumps w) = IoOk"
  shows "\<exists>self w'. PickleFileState_init path bsize w = (Inr self, w')
           \<and> files w' path = Some (Pickled \<lparr>last_crawled_block = - 1, calls = []\<rparr>)
           \<and> dumps w' = dumps w + 1
           \<and> state self = \<lparr>last_crawled_block = - 1, calls = []\<rparr>
           \<and> cache_size self = 0
           \<and> get_last_crawled_block self = - 1"
  using assms
  by (simp add: PickleFileState_init_def pickle_dump_ok initial_state_def get_last_crawled_block_def)

theorem init_writes_initial_blob_witness:
  "files ex_world ''state.pickle'' = None \<and> fault_at ex_world (dumps ex_world) = IoOk \<and>
   (\<exists>self w'. PickleFileState_init ''state.pickle'' 100 ex_world = (Inr self, w')
           \<and> files w' ''state.pickle'' = Some (Pickled \<lparr>last_crawled_block = - 1, calls = []\<rparr>)
           \<and> dumps w' = dumps ex_world + 1
           \<and> state self = \<lparr>last_crawled_block = - 1, calls = []\<rparr>
           \<and> cache_size self = 0
           \<and> get_last_crawled_block self = - 1)"
proof -
  have h1: "files ex_world ''state.pickle'' = None" by (simp add: ex_world_def fault_at_def)
  have h2: "fault_at ex_world (dumps ex_world) = IoOk" by (simp add: ex_world_def fault_at_def)
  show ?thesis using h1 h2 init_writes_initial_blob [OF h1 h2, of 100] by simp
qed

text \<open>
  C5. When the write inside \<^verbatim>\<open>flush()\<close> raises, the store object is exactly as before
  the call: the same calls, the same cursor, the same count of pending calls. A
  \<^verbatim>\<open>flush()\<close> tried again whose write succeeds then puts every accumulated call and the
  cursor into the file.
\<close>

theorem failed_flush_keeps_memory:
  assumes "flush (self, w) = (Some e, self', w')"
  shows "self' = self \<and> state self' = state self \<and> cache_size self' = cache_size self
         \<and> (fault_at w' (dumps w') = IoOk \<longrightarrow>
              (\<exists>w''. flush (self', w') = (None, self\<lparr>cache_size := 0\<rparr>, w'')
                 \<and> files w'' (pickle_file self) = Some (Pickled (state self))))"
proof -
  from flush_Some [OF assms] have eq: "self' = self" by simp
  show ?thesis unfolding eq by (simp add: flush_ok)
qed

theorem failed_flush_keeps_memory_witness:
  "flush (ex_pending, ex_faulty) = (Some StorageError, ex_pending, ex_faulty\<lparr>dumps := 1\<rparr>)
   \<and> calls (state ex_pending) = [ex_call 3]
   \<and> get_last_crawled_block ex_pending = 3
   \<and> cache_size ex_pending = 1
   \<and> (\<exists>w''. flush (ex_pending, ex_faulty\<lparr>dumps := 1\<rparr>) = (None, ex_pending\<lparr>cache_size := 0\<rparr>, w'')
          \<and> files w'' ''state.pickle''
               = Some (Pickled \<lparr>last_crawled_block = 3, calls = [ex_call 3]\<rparr>))"
proof -
  have h: "flush (ex_pending, ex_faulty) = (Some StorageError, ex_pending, ex_faulty\<lparr>dumps := 1\<rparr>)"
    by (simp add: flush.simps pickle_dump_def ex_faulty_def fault_at_def)
  have ok: "fault_at (ex_faulty\<lparr>dumps := 1\<rparr>) (dumps (ex_faulty\<lparr>dumps := 1\<rparr>)) = IoOk"
    by (simp add: ex_faulty_def fault_at_def)
  show ?thesis
    using h ok failed_flush_keeps_memory [OF h]
    by (simp add: ex_pending_def ex_store_def get_last_crawled_block_def)
qed

section \<open>\<^verbatim>\<open>register_call\<close> and the batching\<close>

lemma register_call_state:
  "register_call c (self, w) = (r, self', w') \<Longrightarrow>
   state self' = \<lparr>last_crawled_block = block_number c, calls = calls (state self) @ [c]\<rparr>
   \<and> pickle_file self' = pickle_file self \<and> batch_size self' = batch_size self
   \<and> faults w' = faults w"
  by (auto simp: Let_def flush.simps pickle_dump_def split: if_splits io_outcome.splits)

lemma register_call_quiet:
  "cache_size self + 1 \<noteq> batch_size self \<Longrightarrow> register_call c (self, w) = (r, self', w') \<Longrightarrow>
   r = None \<and> w' = w \<and> cache_size self' = cache_size self + 1"
  by (auto simp: Let_def)

lemma register_call_flushes:
  "cache_size self + 1 = batch_size self \<Longrightarrow> register_call c (self, w) = (r, self', w') \<Longrightarrow>
   dumps w' = dumps w + 1
   \<and> (r = None \<longrightarrow> cache_size self' = 0 \<and> files w' = (files w)(pickle_file self \<mapsto> Pickled (state self')))
   \<and> (r \<noteq> None \<longrightarrow> cache_size self' = cache_size self + 1)"
  by (auto simp: Let_def flush.simps pickle_dump_def split: if_splits io_outcome.splits)

lemma register_all_Nil: "register_all [] \<sigma> = \<sigma>"
  by (simp add: register_all_def)

lemma register_all_Cons: "register_all (c # cs) \<sigma> = register_all cs (snd (register_call c \<sigma>))"
  by (simp add: register_all_def)

lemma register_all_snoc: "register_all (cs @ [c]) \<sigma> = snd (register_call c (register_all cs \<sigma>))"
  by (simp add: register_all_def)

lemma register_all_below_batch:
  "0 \<le> cache_size self \<Longrightarrow> cache_size self + int (length cs) < batch_size self \<Longrightarrow>
   \<exists>self'. register_all cs (self, w) = (self', w)
     \<and> cache_size self' = cache_size self + int (length cs)
     \<and> batch_size self' = batch_size self \<and> pickle_file self' = pickle_file self
     \<and> calls (state self') = calls (state self) @ cs"
proof (induction cs arbitrary: self)
  case Nil
  then show ?case by (simp add: register_all_Nil)
next
  case (Cons c cs)
  obtain r s1 w1 where rc: "register_call c (self, w) = (r, s1, w1)"
    by (metis prod_cases3)
  from Cons.prems have ne: "cache_size self + 1 \<noteq> batch_size self" by simp
  from register_call_quiet [OF ne rc] register_call_state [OF rc]
  have s1: "w1 = w" "cache_size s1 = cache_size self + 1" "batch_size s1 = batch_size self"
    "pickle_file s1 = pickle_file self" "calls (state s1) = calls (state self) @ [c]"
    by simp_all
  from Cons.prems s1 have p: "0 \<le> cache_size s1" "cache_size s1 + int (length cs) < batch_size s1"
    by simp_all
  from Cons.IH [OF p] s1 rc show ?case
    by (auto simp: register_all_Cons)
qed

lemma init_Inr:
  assumes "PickleFileState_init path bsize w0 = (Inr self, w)"
  shows "cache_size self = 0 \<and> batch_size self = bsize \<and> pickle_file self = path"
proof (cases "files w0 path")
  case None
  with assms show ?thesis
    by (cases "pickle_dump initial_state path w0"; cases "fst (pickle_dump initial_state path w0)")
       (auto simp: PickleFileState_init_def)
next
  case (Some c)
  with assms show ?thesis
    by (cases c) (auto simp: PickleFileState_init_def)
qed

text \<open>
  C4. On a store that has just been constructed, or has just been flushed, with batch
  size \<open>N\<close>, at least one, \<open>N\<close> invocations of \<^verbatim>\<open>register_call\<close> with no flush by the
  caller in between write the file exactly once, and \<open>N - 1\<close> invocations never
  write it.
\<close>

theorem auto_flush_exactly_at_batch_size:
  assumes fresh: "(\<exists>path w0. PickleFileState_init path (int N) w0 = (Inr self, w))
                 \<or> (\<exists>s0 w0. flush (s0, w0) = (None, self, w) \<and> batch_size s0 = int N)"
      and pos: "0 < N"
  shows "(length cs = N \<longrightarrow> dumps (snd (register_all cs (self, w))) = dumps w + 1)
       \<and> (length cs = N - 1 \<longrightarrow> dumps (snd (register_all cs (self, w))) = dumps w)"
proof -
  from fresh have st: "cache_size self = 0 \<and> batch_size self = int N"
    by (auto dest!: flush_None init_Inr)
  have less: "dumps (snd (register_all ds (self, w))) = dumps w" if "length ds = N - 1" for ds
  proof -
    from that pos st have "cache_size self + int (length ds) < batch_size self" by simp
    with register_all_below_batch [of self ds w] st show ?thesis by auto
  qed
  have full: "dumps (snd (register_all ds (self, w))) = dumps w + 1" if "length ds = N" for ds
  proof -
    from that pos obtain es e where ds: "ds = es @ [e]" and les: "length es = N - 1"
      by (cases ds rule: rev_cases) auto
    from les pos st have "cache_size self + int (length es) < batch_size self" by simp
    with register_all_below_batch [of self es w] st les obtain s1 where
      s1: "register_all es (self, w) = (s1, w)" "cache_size s1 = int (N - 1)" "batch_size s1 = int N"
      by auto
    obtain r s2 w2 where rc: "register_call e (s1, w) = (r, s2, w2)"
      by (metis prod_cases3)
    from s1 pos have "cache_size s1 + 1 = batch_size s1" by simp
    from register_call_flushes [OF this rc] have "dumps w2 = dumps w + 1" by simp
    with ds s1 rc show ?thesis by (simp add: register_all_snoc)
  qed
  from less full show ?thesis by blast
qed

theorem auto_flush_exactly_at_batch_size_witness:
  "0 < (2::nat) \<and> dumps (snd (register_all [ex_call 3, ex_call 4] (ex_store 2, ex_world1))) = dumps ex_world1 + 1
     \<and> dumps (snd (register_all [ex_call 3] (ex_store 2, ex_world1))) = dumps ex_world1"
proof -
  have h: "PickleFileState_init ''state.pickle'' (int 2) ex_world = (Inr (ex_store 2), ex_world1)"
    by (simp add: PickleFileState_init_def pickle_dump_def ex_world_def fault_at_def ex_world1_def ex_store_def)
  then have fresh: "(\<exists>path w0. PickleFileState_init path (int 2) w0 = (Inr (ex_store 2), ex_world1))
                 \<or> (\<exists>s0 w0. flush (s0, w0) = (None, ex_store 2, ex_world1) \<and> batch_size s0 = int 2)"
    by blast
  show ?thesis
    using auto_flush_exactly_at_batch_size [OF fresh, of "[ex_call 3, ex_call 4]"]
          auto_flush_exactly_at_batch_size [OF fresh, of "[ex_call 3]"]
    by simp
qed

lemma register_all_world:
  "register_all cs (self, w) = (self', w') \<Longrightarrow> dumps w \<le> dumps w' \<and> (dumps w' = dumps w \<longrightarrow> w' = w)"
proof (induction cs arbitrary: self w)
  case Nil
  then show ?case by (simp add: register_all_Nil)
next
  case (Cons c cs)
  obtain r s1 w1 where rc: "register_call c (self, w) = (r, s1, w1)"
    by (metis prod_cases3)
  with Cons.prems have rest: "register_all cs (s1, w1) = (self', w')"
    by (simp add: register_all_Cons)
  have step: "dumps w \<le> dumps w1 \<and> (dumps w1 = dumps w \<longrightarrow> w1 = w)"
    using register_call_quiet [OF _ rc] register_call_flushes [OF _ rc]
    by (cases "cache_size self + 1 = batch_size self") auto
  from Cons.IH [OF rest] step show ?case by auto
qed

lemma init_existing:
  "files w path = Some (Pickled st) \<Longrightarrow>
   PickleFileState_init path bsize w =
     (Inr \<lparr>state = st, pickle_file = path, state_file = path, batch_size = bsize, cache_size = 0\<rparr>, w)"
  by (simp add: PickleFileState_init_def)

text \<open>
  C7. After a store has flushed, and as long as it has not written the file again, a
  new \<^verbatim>\<open>PickleFileState\<close> constructed on the same path has the cursor and the list of
  calls the first store had at the moment of that flush.
\<close>

theorem reload_reproduces_last_flush:
  assumes "flush (self, w) = (None, self1, w1)"
      and "register_all cs (self1, w1) = (self2, w2)"
      and "dumps w2 = dumps w1"
  shows "\<exists>s. PickleFileState_init (pickle_file self) bsize w2 = (Inr s, w2)
           \<and> get_last_crawled_block s = get_last_crawled_block self
           \<and> calls (state s) = calls (state self)"
proof -
  from register_all_world [OF assms(2)] assms(3) have w2: "w2 = w1" by simp
  from flush_None [OF assms(1)] have "files w1 (pickle_file self) = Some (Pickled (state self))"
    by simp
  with w2 show ?thesis
    by (simp add: init_existing get_last_crawled_block_def)
qed

theorem reload_reproduces_last_flush_witness:
  "flush (ex_pending, ex_world1) =
     (None, ex_pending\<lparr>cache_size := 0\<rparr>,
      ex_world1\<lparr>dumps := 2,
                files := [''state.pickle'' \<mapsto> Pickled \<lparr>last_crawled_block = 3, calls = [ex_call 3]\<rparr>]\<rparr>)
   \<and> get_last_crawled_block
        (fst (register_all [ex_call 4]
           (ex_pending\<lparr>cache_size := 0\<rparr>,
            ex_world1\<lparr>dumps := 2,
                files := [''state.pickle'' \<mapsto> Pickled \<lparr>last_crawled_block = 3, calls = [ex_call 3]\<rparr>]\<rparr>))) = 4
   \<and> (\<exists>s. PickleFileState_init ''state.pickle'' 100
             (ex_world1\<lparr>dumps := 2,
                files := [''state.pickle'' \<mapsto> Pickled \<lparr>last_crawled_block = 3, calls = [ex_call 3]\<rparr>]\<rparr>)
           = (Inr s, ex_world1\<lparr>dumps := 2,
                files := [''state.pickle'' \<mapsto> Pickled \<lparr>last_crawled_block = 3, calls = [ex_call 3]\<rparr>]\<rparr>)
         \<and> get_last_crawled_block s = 3 \<and> calls (state s) = [ex_call 3])"
proof -
  let ?w = "ex_world1\<lparr>dumps := 2,
                files := [''state.pickle'' \<mapsto> Pickled \<lparr>last_crawled_block = 3, calls = [ex_call 3]\<rparr>]\<rparr>"
  let ?later = "ex_pending\<lparr>state := \<lparr>last_crawled_block = 4, calls = [ex_call 3, ex_call 4]\<rparr>,
                           cache_size := 1\<rparr>"
  have h1: "flush (ex_pending, ex_world1) = (None, ex_pending\<lparr>cache_size := 0\<rparr>, ?w)"
    by (simp add: flush.simps pickle_dump_def fault_at_def ex_world1_def ex_pending_def ex_store_def)
  have h2: "register_all [ex_call 4] (ex_pending\<lparr>cache_size := 0\<rparr>, ?w) = (?later, ?w)"
    by (simp add: register_all_def Let_def ex_pending_def ex_store_def ex_call_def)
  have h3: "dumps ?w = dumps ?w" by simp
  show ?thesis
    using h1 h2 reload_reproduces_last_flush [OF h1 h2 h3, of 100]
    by (simp add: ex_pending_def ex_store_def get_last_crawled_block_def)
qed

lemma length_register_trace: "length (register_trace cs \<sigma>) = length cs"
  by (induction cs arbitrary: \<sigma>) (simp_all add: Let_def)

lemma register_call_snd_state:
  "state (fst (snd (register_call c \<sigma>))) =
     \<lparr>last_crawled_block = block_number c, calls = calls (state (fst \<sigma>)) @ [c]\<rparr>"
proof -
  obtain self w where \<sigma>: "\<sigma> = (self, w)" by (cases \<sigma>)
  obtain r s1 w1 where rc: "register_call c (self, w) = (r, s1, w1)"
    by (metis prod_cases3)
  from register_call_state [OF rc] \<sigma> rc show ?thesis by simp
qed

lemma register_trace_cursor:
  "map (\<lambda>\<sigma>'. get_last_crawled_block (fst \<sigma>')) (register_trace cs \<sigma>) = map block_number cs"
  by (induction cs arbitrary: \<sigma>)
     (simp_all add: Let_def register_call_snd_state get_last_crawled_block_def)

lemma register_trace_calls:
  "j < length cs \<Longrightarrow>
   calls (state (fst (register_trace cs \<sigma> ! j))) = calls (state (fst \<sigma>)) @ take (Suc j) cs"
proof (induction cs arbitrary: \<sigma> j)
  case Nil
  then show ?case by simp
next
  case (Cons c cs)
  show ?case
  proof (cases j)
    case 0
    then show ?thesis by (simp add: Let_def register_call_snd_state)
  next
    case (Suc k)
    with Cons.prems have "k < length cs" by simp
    from Cons.IH [OF this, of "snd (register_call c \<sigma>)"] Suc show ?thesis
      by (simp add: Let_def register_call_snd_state)
  qed
qed

text \<open>
  C3. Each \<^verbatim>\<open>register_call\<close> appends its call and sets the cursor to that call's
  block number. So when calls are registered with non-decreasing block numbers, the
  cursors recorded after the invocations are non-decreasing, also together with the
  cursor the store started with when that one is at most the block numbers of the calls
  (as \<open>-1\<close> is), and the block number of a call is at most every cursor recorded at or
  after its own invocation.
\<close>

theorem cursor_follows_registered_blocks:
  assumes "sorted (map block_number cs)"
  shows "map (\<lambda>\<sigma>'. get_last_crawled_block (fst \<sigma>')) (register_trace cs \<sigma>) = map block_number cs
       \<and> sorted (map (\<lambda>\<sigma>'. get_last_crawled_block (fst \<sigma>')) (register_trace cs \<sigma>))
       \<and> ((\<forall>c \<in> set cs. get_last_crawled_block (fst \<sigma>) \<le> block_number c) \<longrightarrow>
            sorted (get_last_crawled_block (fst \<sigma>)
                    # map (\<lambda>\<sigma>'. get_last_crawled_block (fst \<sigma>')) (register_trace cs \<sigma>)))
       \<and> (\<forall>i j. i \<le> j \<and> j < length cs \<longrightarrow>
             calls (state (fst (register_trace cs \<sigma> ! j))) = calls (state (fst \<sigma>)) @ take (Suc j) cs
           \<and> block_number (cs ! i) \<le> get_last_crawled_block (fst (register_trace cs \<sigma> ! j)))"
proof -
  let ?cur = "map (\<lambda>\<sigma>'. get_last_crawled_block (fst \<sigma>')) (register_trace cs \<sigma>)"
  have cur: "?cur = map block_number cs" by (rule register_trace_cursor)
  have "block_number (cs ! i) \<le> get_last_crawled_block (fst (register_trace cs \<sigma> ! j))"
    if "i \<le> j" "j < length cs" for i j
  proof -
    from that have "?cur ! j = block_number (cs ! j)" unfolding cur by simp
    moreover from that have "?cur ! j = get_last_crawled_block (fst (register_trace cs \<sigma> ! j))"
      by (simp add: length_register_trace)
    moreover from assms that have "block_number (cs ! i) \<le> block_number (cs ! j)"
      by (simp add: sorted_iff_nth_mono)
    ultimately show ?thesis by simp
  qed
  with cur assms show ?thesis
    by (simp add: register_trace_calls)
qed

theorem cursor_follows_registered_blocks_witness:
  "sorted (map block_number [ex_call 3, ex_call 3, ex_call 7])
   \<and> map (\<lambda>\<sigma>'. get_last_crawled_block (fst \<sigma>')) (register_trace [ex_call 3, ex_call 3, ex_call 7] (ex_store 2, ex_world1)) = [3, 3, 7]
   \<and> get_last_crawled_block (ex_store 2) = - 1
   \<and> sorted (get_last_crawled_block (ex_store 2)
         # map (\<lambda>\<sigma>'. get_last_crawled_block (fst \<sigma>')) (register_trace [ex_call 3, ex_call 3, ex_call 7] (ex_store 2, ex_world1)))"
proof -
  have h: "sorted (map block_number [ex_call 3, ex_call 3, ex_call 7])"
    by (simp add: ex_call_def)
  have c: "get_last_crawled_block (ex_store 2) = - 1"
    by (simp add: get_last_crawled_block_def ex_store_def initial_state_def)
  show ?thesis
    using h cursor_follows_registered_blocks [OF h, of "(ex_store 2, ex_world1)"]
    by (simp add: ex_call_def c)
qed

section \<open>What a scan registers\<close>

lemma extends_refl: "extends \<sigma> [] \<sigma>"
  by (simp add: extends_def)

lemma extends_trans: "extends \<sigma> f1 \<sigma>1 \<Longrightarrow> extends \<sigma>1 f2 \<sigma>2 \<Longrightarrow> extends \<sigma> (f1 @ f2) \<sigma>2"
  by (cases f2 rule: rev_cases) (auto simp: extends_def)

lemma for_each_append:
  "for_each body (xs @ ys) \<sigma> = followed_by (for_each body xs) (for_each body ys) \<sigma>"
  by (induction xs arbitrary: \<sigma>) (auto simp: followed_by_def split: prod.splits option.splits)

lemma for_each_log:
  assumes step: "\<And>x \<sigma> r \<sigma>'. x \<in> set xs \<Longrightarrow> body x \<sigma> = (r, \<sigma>') \<Longrightarrow>
            \<exists>fcs. extends \<sigma> fcs \<sigma>' \<and> prefix fcs (exp x) \<and> (r = None \<longrightarrow> fcs = exp x \<and> ok x)"
      and run: "for_each body xs \<sigma> = (r, \<sigma>')"
  shows "\<exists>fcs. extends \<sigma> fcs \<sigma>' \<and> prefix fcs (concat (map exp xs))
           \<and> (r = None \<longrightarrow> fcs = concat (map exp xs) \<and> (\<forall>x \<in> set xs. ok x))"
  using assms
proof (induction xs arbitrary: \<sigma>)
  case Nil
  then show ?case by (auto simp: extends_refl)
next
  case (Cons x xs)
  obtain r1 \<sigma>1 where b: "body x \<sigma> = (r1, \<sigma>1)" by (cases "body x \<sigma>")
  from Cons.prems(1) [OF _ b] obtain f1 where
    f1: "extends \<sigma> f1 \<sigma>1" "prefix f1 (exp x)" "r1 = None \<longrightarrow> f1 = exp x \<and> ok x"
    by auto
  show ?case
  proof (cases r1)
    case (Some e)
    with b Cons.prems(2) have "r = Some e" "\<sigma>' = \<sigma>1" by simp_all
    with f1 show ?thesis
      by (intro exI [of _ f1]) (auto simp: prefix_def)
  next
    case None
    with b Cons.prems(2) have rest: "for_each body xs \<sigma>1 = (r, \<sigma>')" by simp
    have "\<exists>fcs. extends \<sigma>1 fcs \<sigma>' \<and> prefix fcs (concat (map exp xs))
           \<and> (r = None \<longrightarrow> fcs = concat (map exp xs) \<and> (\<forall>x \<in> set xs. ok x))"
      by (rule Cons.IH [OF _ rest]) (rule Cons.prems(1), auto)
    then obtain f2 where
      f2: "extends \<sigma>1 f2 \<sigma>'" "prefix f2 (concat (map exp xs))"
          "r = None \<longrightarrow> f2 = concat (map exp xs) \<and> (\<forall>x \<in> set xs. ok x)"
      by auto
    from None f1 have e1: "f1 = exp x" "ok x" by simp_all
    from f1(1) f2(1) have "extends \<sigma> (f1 @ f2) \<sigma>'" by (rule extends_trans)
    with f2 e1 show ?thesis
      by (intro exI [of _ "f1 @ f2"]) auto
  qed
qed

lemma process_transaction_build:
  "process_transaction self tx \<sigma> =
     (case build_function_call self tx of Inl e \<Rightarrow> (Some e, \<sigma>) | Inr fc \<Rightarrow> register_call fc \<sigma>)"
  by (auto simp: process_transaction_def build_function_call_def split: sum.splits prod.splits)

lemma register_call_extends:
  "register_call fc \<sigma> = (r, \<sigma>') \<Longrightarrow> extends \<sigma> [fc] \<sigma>'"
  by (cases \<sigma>)
     (auto simp: extends_def get_last_crawled_block_def Let_def flush.simps pickle_dump_def
           split: if_splits io_outcome.splits)

lemma built_Nil: "built self [] = []"
  by (simp add: built_def)

lemma built_Cons:
  "built self (tx # txs) =
     (case build_function_call self tx of Inl e \<Rightarrow> [] | Inr fc \<Rightarrow> [fc]) @ built self txs"
  by (simp add: built_def)

lemma built_append: "built self (xs @ ys) = built self xs @ built self ys"
  by (simp add: built_def)

lemma built_concat: "built self (concat xss) = concat (map (built self) xss)"
  by (induction xss) (simp_all add: built_Nil built_append)

lemma process_transaction_log:
  assumes "process_transaction self tx \<sigma> = (r, \<sigma>')"
  shows "\<exists>fcs. extends \<sigma> fcs \<sigma>' \<and> prefix fcs (built self [tx])
           \<and> (r = None \<longrightarrow> fcs = built self [tx] \<and> (\<exists>fc. build_function_call self tx = Inr fc))"
proof (cases "build_function_call self tx")
  case (Inl e)
  with assms show ?thesis
    by (auto simp: process_transaction_build built_Cons built_Nil extends_refl)
next
  case (Inr fc)
  with assms have "register_call fc \<sigma> = (r, \<sigma>')" by (simp add: process_transaction_build)
  from register_call_extends [OF this] Inr show ?thesis
    by (auto simp: built_Cons built_Nil)
qed


lemma buildable_iff: "buildable self tx \<longleftrightarrow> (\<exists>fc. build_function_call self tx = Inr fc)"
  by (simp add: buildable_def split: sum.splits)

lemma built_singletons: "concat (map (\<lambda>tx. built self [tx]) txs) = built self txs"
  by (induction txs) (simp_all add: built_Nil built_Cons)

lemma built_map:
  "\<forall>tx \<in> set txs. buildable self tx \<Longrightarrow> map (build_function_call self) txs = map Inr (built self txs)"
  by (induction txs) (auto simp: built_Nil built_Cons buildable_iff)

lemma transactions_log:
  assumes "for_each (process_transaction self) txs \<sigma> = (r, \<sigma>')"
  shows "\<exists>fcs. extends \<sigma> fcs \<sigma>' \<and> prefix fcs (built self txs)
           \<and> (r = None \<longrightarrow> fcs = built self txs \<and> (\<forall>tx \<in> set txs. buildable self tx))"
  using for_each_log [where body = "process_transaction self" and exp = "\<lambda>tx. built self [tx]"
      and ok = "buildable self", OF _ assms]
  by (simp add: built_singletons buildable_iff process_transaction_log)

lemma crawl_address_log:
  assumes "crawl_address self bn address \<sigma> = (r, \<sigma>')"
  shows "\<exists>fcs. extends \<sigma> fcs \<sigma>' \<and> prefix fcs (built self (fetched self bn address))
           \<and> (r = None \<longrightarrow> fcs = built self (fetched self bn address)
                \<and> (\<exists>txs. get_transactions_to_address (ethereum_state_provider self) address bn = Inr txs)
                \<and> (\<forall>tx \<in> set (fetched self bn address). buildable self tx))"
proof (cases "get_transactions_to_address (ethereum_state_provider self) address bn")
  case (Inl e)
  with assms show ?thesis
    by (auto simp: crawl_address_def fetched_def built_Nil extends_refl)
next
  case (Inr txs)
  with assms have "for_each (process_transaction self) txs \<sigma> = (r, \<sigma>')"
    by (simp add: crawl_address_def)
  from transactions_log [OF this] Inr show ?thesis
    by (simp add: fetched_def)
qed

lemma crawl_block_log:
  assumes "crawl_block self bn \<sigma> = (r, \<sigma>')"
  shows "\<exists>fcs. extends \<sigma> fcs \<sigma>'
           \<and> prefix fcs (built self (concat (map (fetched self bn) (contract_addresses self))))
           \<and> (r = None \<longrightarrow> fcs = built self (concat (map (fetched self bn) (contract_addresses self)))
                \<and> (\<forall>address \<in> set (contract_addresses self).
                      (\<exists>txs. get_transactions_to_address (ethereum_state_provider self) address bn = Inr txs)
                    \<and> (\<forall>tx \<in> set (fetched self bn address). buildable self tx)))"
  using for_each_log [where body = "crawl_address self bn"
      and exp = "\<lambda>address. built self (fetched self bn address)"
      and ok = "\<lambda>address. (\<exists>txs. get_transactions_to_address (ethereum_state_provider self) address bn = Inr txs)
                    \<and> (\<forall>tx \<in> set (fetched self bn address). buildable self tx)",
      OF _ assms [unfolded crawl_block_def]]
  by (simp add: built_concat crawl_address_log comp_def)

lemma crawl_blocks_log:
  assumes "for_each (crawl_block self) [a..b] \<sigma> = (r, \<sigma>')"
  shows "\<exists>fcs. extends \<sigma> fcs \<sigma>' \<and> prefix fcs (built self (visit_order self a b))
           \<and> (r = None \<longrightarrow> fcs = built self (visit_order self a b)
                \<and> reader_ok self a b \<and> (\<forall>tx \<in> set (visit_order self a b). buildable self tx))"
proof -
  let ?ok = "\<lambda>bn. \<forall>address \<in> set (contract_addresses self).
                      (\<exists>txs. get_transactions_to_address (ethereum_state_provider self) address bn = Inr txs)
                    \<and> (\<forall>tx \<in> set (fetched self bn address). buildable self tx)"
  have "\<exists>fcs. extends \<sigma> fcs \<sigma>'
          \<and> prefix fcs (concat (map (\<lambda>bn. built self (concat (map (fetched self bn) (contract_addresses self)))) [a..b]))
          \<and> (r = None \<longrightarrow> fcs = concat (map (\<lambda>bn. built self (concat (map (fetched self bn) (contract_addresses self)))) [a..b])
                \<and> (\<forall>bn \<in> set [a..b]. ?ok bn))"
    by (rule for_each_log [where body = "crawl_block self" and ok = ?ok, OF _ assms])
       (rule crawl_block_log)
  moreover have "concat (map (\<lambda>bn. built self (concat (map (fetched self bn) (contract_addresses self)))) [a..b])
      = built self (visit_order self a b)"
    by (simp add: visit_order_def built_concat comp_def)
  moreover have "(\<forall>bn \<in> set [a..b]. ?ok bn) \<Longrightarrow>
      reader_ok self a b \<and> (\<forall>tx \<in> set (visit_order self a b). buildable self tx)"
    by (auto simp: reader_ok_iff visit_order_def)
  ultimately show ?thesis by auto
qed

lemma flush_log:
  assumes "flush \<sigma> = (r, \<sigma>')"
  shows "extends \<sigma> [] \<sigma>' \<and> state (fst \<sigma>') = state (fst \<sigma>)
       \<and> (r = None \<longrightarrow> cache_size (fst \<sigma>') = 0
            \<and> files (snd \<sigma>') (pickle_file (fst \<sigma>)) = Some (Pickled (state (fst \<sigma>))))"
  using assms
  by (cases \<sigma>)
     (auto simp: extends_def get_last_crawled_block_def flush.simps pickle_dump_def Let_def
           split: io_outcome.splits)

lemma crawl_log:
  assumes "crawl self a b fl \<sigma> = (r, \<sigma>')"
  shows "\<exists>fcs. extends \<sigma> fcs \<sigma>' \<and> prefix fcs (built self (visit_order self a b))
           \<and> (r = None \<longrightarrow> fcs = built self (visit_order self a b)
                \<and> reader_ok self a b \<and> (\<forall>tx \<in> set (visit_order self a b). buildable self tx)
                \<and> (fl \<longrightarrow> cache_size (fst \<sigma>') = 0
                      \<and> files (snd \<sigma>') (pickle_file (fst \<sigma>)) = Some (Pickled (state (fst \<sigma>')))))"
proof -
  obtain r1 \<sigma>1 where scan: "for_each (crawl_block self) [a..b] \<sigma> = (r1, \<sigma>1)"
    by (cases "for_each (crawl_block self) [a..b] \<sigma>")
  from crawl_blocks_log [OF scan] obtain fcs where
    fcs: "extends \<sigma> fcs \<sigma>1" "prefix fcs (built self (visit_order self a b))"
      "r1 = None \<longrightarrow> fcs = built self (visit_order self a b)
          \<and> reader_ok self a b \<and> (\<forall>tx \<in> set (visit_order self a b). buildable self tx)"
    by auto
  show ?thesis
  proof (cases "r1 = None \<and> fl")
    case False
    with assms scan have "r = r1" "\<sigma>' = \<sigma>1" "r = None \<longrightarrow> \<not> fl"
      by (auto simp: crawl_def split: option.splits if_splits)
    with fcs show ?thesis by auto
  next
    case True
    with assms scan have fl: "flush \<sigma>1 = (r, \<sigma>')" by (simp add: crawl_def)
    from flush_log [OF fl] fcs(1) have "extends \<sigma> (fcs @ []) \<sigma>'"
      by (blast intro: extends_trans)
    moreover from fcs(1) have "pickle_file (fst \<sigma>1) = pickle_file (fst \<sigma>)"
      by (simp add: extends_def)
    ultimately show ?thesis using flush_log [OF fl] fcs True by auto
  qed
qed

section \<open>When a scan returns\<close>

lemma for_each_total:
  assumes step: "\<And>x \<sigma>. x \<in> set xs \<Longrightarrow> I \<sigma> \<Longrightarrow> fst (body x \<sigma>) = None \<and> I (snd (body x \<sigma>))"
      and init: "I \<sigma>"
  shows "fst (for_each body xs \<sigma>) = None \<and> I (snd (for_each body xs \<sigma>))"
  using assms
proof (induction xs arbitrary: \<sigma>)
  case Nil
  then show ?case by simp
next
  case (Cons x xs)
  obtain r1 \<sigma>1 where b: "body x \<sigma> = (r1, \<sigma>1)" by (cases "body x \<sigma>")
  from Cons.prems(1) [of x \<sigma>] Cons.prems(2) b have r1: "r1 = None" "I \<sigma>1" by simp_all
  have "fst (for_each body xs \<sigma>1) = None \<and> I (snd (for_each body xs \<sigma>1))"
  proof (rule Cons.IH [OF _ r1(2)])
    fix y \<sigma>2 assume "y \<in> set xs" "I \<sigma>2"
    then show "fst (body y \<sigma>2) = None \<and> I (snd (body y \<sigma>2))"
      using Cons.prems(1) [of y \<sigma>2] by simp
  qed
  with b r1 show ?case by simp
qed


lemma flush_total:
  "writes_ok (snd \<sigma>) \<Longrightarrow> fst (flush \<sigma>) = None \<and> writes_ok (snd (snd (flush \<sigma>)))"
  by (cases \<sigma>) (simp add: writes_ok_iff flush.simps pickle_dump_def)


lemma register_call_total:
  "writes_ok (snd \<sigma>) \<Longrightarrow> fst (register_call fc \<sigma>) = None \<and> writes_ok (snd (snd (register_call fc \<sigma>)))"
proof (cases \<sigma>)
  case (Pair self w)
  assume "writes_ok (snd \<sigma>)"
  with Pair have w: "writes_ok w" by simp
  show ?thesis
    unfolding Pair register_call.simps Let_def
    using flush_total [of "(s, w)" for s] w by simp
qed


lemma process_transaction_total:
  assumes "buildable self tx" and "writes_ok (snd \<sigma>)"
  shows "fst (process_transaction self tx \<sigma>) = None
       \<and> writes_ok (snd (snd (process_transaction self tx \<sigma>)))"
proof -
  from assms(1) obtain fc where "build_function_call self tx = Inr fc"
    by (auto simp: buildable_iff)
  then have "process_transaction self tx \<sigma> = register_call fc \<sigma>"
    by (simp add: process_transaction_build)
  with register_call_total [OF assms(2)] show ?thesis by simp
qed


lemma crawl_address_total:
  assumes "get_transactions_to_address (ethereum_state_provider self) address bn = Inr txs"
      and "\<forall>tx \<in> set txs. buildable self tx" and "writes_ok (snd \<sigma>)"
  shows "fst (crawl_address self bn address \<sigma>) = None
       \<and> writes_ok (snd (snd (crawl_address self bn address \<sigma>)))"
proof -
  have "fst (for_each (process_transaction self) txs \<sigma>) = None
      \<and> writes_ok (snd (snd (for_each (process_transaction self) txs \<sigma>)))"
  proof (rule for_each_total [where I = "\<lambda>\<sigma>::sys. writes_ok (snd \<sigma>)"])
    show "writes_ok (snd \<sigma>)" by fact
  next
    fix tx and \<sigma>1 :: sys assume "tx \<in> set txs" "writes_ok (snd \<sigma>1)"
    with assms(2) show "fst (process_transaction self tx \<sigma>1) = None
       \<and> writes_ok (snd (snd (process_transaction self tx \<sigma>1)))"
      by (simp add: process_transaction_total)
  qed
  with assms(1) show ?thesis by (simp add: crawl_address_def)
qed


lemma in_visit_order:
  assumes "bn \<in> set [a..b]" and "address \<in> set (contract_addresses self)"
      and "tx \<in> set (fetched self bn address)"
  shows "tx \<in> set (visit_order self a b)"
proof -
  let ?blk = "\<lambda>bn. concat (map (fetched self bn) (contract_addresses self))"
  from assms(2,3) have "tx \<in> \<Union> (set ` fetched self bn ` set (contract_addresses self))"
    by (rule_tac UN_I [of "fetched self bn address"]) (rule imageI)
  then have "tx \<in> set (?blk bn)"
    by (simp only: set_concat set_map)
  with assms(1) have "tx \<in> \<Union> (set ` ?blk ` set [a..b])"
    by (rule_tac UN_I [of "?blk bn"]) (rule imageI)
  then show ?thesis
    unfolding visit_order_def by (simp only: set_concat set_map)
qed

lemma crawl_block_total:
  assumes "reader_ok self a b" and "\<forall>tx \<in> set (visit_order self a b). buildable self tx"
      and "bn \<in> set [a..b]" and "writes_ok (snd \<sigma>)"
  shows "fst (crawl_block self bn \<sigma>) = None \<and> writes_ok (snd (snd (crawl_block self bn \<sigma>)))"
  unfolding crawl_block_def
proof (rule for_each_total [where I = "\<lambda>\<sigma>::sys. writes_ok (snd \<sigma>)"])
  show "writes_ok (snd \<sigma>)" by fact
next
  fix address and \<sigma>1 :: sys
  assume ad: "address \<in> set (contract_addresses self)" and w: "writes_ok (snd \<sigma>1)"
  from assms(1,3) ad obtain txs where
    txs: "get_transactions_to_address (ethereum_state_provider self) address bn = Inr txs"
    unfolding reader_ok_iff by blast
  then have "fetched self bn address = txs" by (simp add: fetched_def)
  with assms(2) in_visit_order [OF assms(3) ad] have b: "\<forall>tx \<in> set txs. buildable self tx"
    by simp
  show "fst (crawl_address self bn address \<sigma>1) = None
       \<and> writes_ok (snd (snd (crawl_address self bn address \<sigma>1)))"
    by (rule crawl_address_total [OF txs b w])
qed


lemma crawl_total:
  assumes "reader_ok self a b" and "\<forall>tx \<in> set (visit_order self a b). buildable self tx"
      and "writes_ok (snd \<sigma>)"
  shows "fst (crawl self a b fl \<sigma>) = None \<and> writes_ok (snd (snd (crawl self a b fl \<sigma>)))"
proof -
  have scan: "fst (for_each (crawl_block self) [a..b] \<sigma>) = None
      \<and> writes_ok (snd (snd (for_each (crawl_block self) [a..b] \<sigma>)))"
  proof (rule for_each_total [where I = "\<lambda>\<sigma>::sys. writes_ok (snd \<sigma>)"])
    show "writes_ok (snd \<sigma>)" by fact
  next
    fix bn and \<sigma>1 :: sys assume "bn \<in> set [a..b]" "writes_ok (snd \<sigma>1)"
    then show "fst (crawl_block self bn \<sigma>1) = None \<and> writes_ok (snd (snd (crawl_block self bn \<sigma>1)))"
      by (rule crawl_block_total [OF assms(1,2)])
  qed
  obtain r1 \<sigma>1 where s1: "for_each (crawl_block self) [a..b] \<sigma> = (r1, \<sigma>1)"
    by (cases "for_each (crawl_block self) [a..b] \<sigma>")
  with scan have "r1 = None" "writes_ok (snd \<sigma>1)" by simp_all
  with s1 flush_total [of \<sigma>1] show ?thesis
    by (simp add: crawl_def)
qed


lemma visit_order_split:
  "a \<le> b \<Longrightarrow> b \<le> c \<Longrightarrow> visit_order self a c = visit_order self a b @ visit_order self (b + 1) c"
  by (simp add: visit_order_def upto_split2 [of a b c])

section \<open>The scan as one loop over the transactions\<close>

lemmas ex_defs = ex_crawler_def ex_decode_def ex_w3_def ex_block_def ex_tx_def Web3StateProvider_def
  ex_store_def ex_world1_def ex_call_def initial_state_def
  crawl_def crawl_block_def crawl_address_def process_transaction_def Let_def
  flush.simps pickle_dump_def fault_at_def


lemma for_each_concat:
  assumes "\<And>x \<sigma>. x \<in> set xs \<Longrightarrow> body x \<sigma> = for_each inner (f x) \<sigma>"
  shows "for_each body xs \<sigma> = for_each inner (concat (map f xs)) \<sigma>"
  using assms
proof (induction xs arbitrary: \<sigma>)
  case Nil
  then show ?case by simp
next
  case (Cons x xs)
  have head: "body x \<sigma> = for_each inner (f x) \<sigma>" by (rule Cons.prems) simp
  have tail: "for_each body xs \<sigma>1 = for_each inner (concat (map f xs)) \<sigma>1" for \<sigma>1
    by (rule Cons.IH) (rule Cons.prems, simp)
  show ?case
    by (cases "for_each inner (f x) \<sigma>"; cases "fst (for_each inner (f x) \<sigma>)")
       (simp_all add: for_each_append followed_by_def head tail)
qed

lemma for_each_visits:
  "for_each (visit_step self) (map Visit txs) \<sigma> = for_each (process_transaction self) txs \<sigma>"
  by (induction txs arbitrary: \<sigma>) (simp_all split: prod.splits option.splits)

lemma crawl_blocks_scan:
  "for_each (crawl_block self) [a..b] \<sigma> = for_each (visit_step self) (scan self a b) \<sigma>"
  unfolding scan_def
proof (rule for_each_concat)
  fix bn and \<sigma>1 :: sys
  show "crawl_block self bn \<sigma>1 =
        for_each (visit_step self)
          (concat (map (\<lambda>address.
             case get_transactions_to_address (ethereum_state_provider self) address bn of
               Inl e \<Rightarrow> [ReadFails e]
             | Inr txs \<Rightarrow> map Visit txs) (contract_addresses self))) \<sigma>1"
    unfolding crawl_block_def
  proof (rule for_each_concat)
    fix address and \<sigma>2 :: sys
    show "crawl_address self bn address \<sigma>2 =
        for_each (visit_step self)
          (case get_transactions_to_address (ethereum_state_provider self) address bn of
             Inl e \<Rightarrow> [ReadFails e]
           | Inr txs \<Rightarrow> map Visit txs) \<sigma>2"
      by (cases "get_transactions_to_address (ethereum_state_provider self) address bn")
         (simp_all add: crawl_address_def for_each_visits)
  qed
qed

lemma in_set_concat_map: "x \<in> set (concat (map f xs)) \<longleftrightarrow> (\<exists>y \<in> set xs. x \<in> set (f y))"
  by auto

lemma visit_in_scan:
  assumes "Visit tx \<in> set (scan self a b)"
  shows "tx \<in> set (visit_order self a b)"
proof -
  from assms obtain bn address where
    bn: "bn \<in> set [a..b]" and ad: "address \<in> set (contract_addresses self)" and
    v: "Visit tx \<in> set (case get_transactions_to_address (ethereum_state_provider self) address bn of
             Inl e \<Rightarrow> [ReadFails e] | Inr txs \<Rightarrow> map Visit txs)"
    unfolding scan_def in_set_concat_map by blast
  from v have "tx \<in> set (fetched self bn address)"
    by (cases "get_transactions_to_address (ethereum_state_provider self) address bn")
       (auto simp: fetched_def)
  with bn ad show ?thesis by (rule in_visit_order)
qed


text \<open>
  C6. For \<open>a \<le> b < c\<close>, \<^verbatim>\<open>crawl(a, b)\<close> followed by \<^verbatim>\<open>crawl(b + 1, c)\<close> with its final
  flush does exactly what \<^verbatim>\<open>crawl(a, c)\<close> with its final flush does on the same chain:
  the same outcome, the same store (cursor, calls in the same order, pending count) and
  the same file system, also when one of them raises.
\<close>

theorem crawl_resumption:
  assumes "a \<le> b" and "b < c"
  shows "followed_by (crawl self a b False) (crawl self (b + 1) c fl) \<sigma> = crawl self a c fl \<sigma>"
proof -
  from assms have range: "[a..c] = [a..b] @ [b + 1..c]"
    by (intro upto_split2) simp_all
  obtain r1 \<sigma>1 where first: "for_each (crawl_block self) [a..b] \<sigma> = (r1, \<sigma>1)"
    by (cases "for_each (crawl_block self) [a..b] \<sigma>")
  show ?thesis
    unfolding crawl_def range for_each_append followed_by_def first
    by (cases r1) simp_all
qed

theorem crawl_resumption_witness:
  "(7::int) \<le> 7 \<and> (7::int) < 9
   \<and> followed_by (crawl ex_crawler 7 7 False) (crawl ex_crawler (7 + 1) 9 True) (ex_store 100, ex_world1)
       = crawl ex_crawler 7 9 True (ex_store 100, ex_world1)"
  using crawl_resumption [of 7 7 9 ex_crawler True "(ex_store 100, ex_world1)"] by simp

text \<open>
  C9. Whatever a \<^verbatim>\<open>crawl\<close> does, the calls it appends to the store's list are, in
  order, records of the transactions in the order of the nested scan (blocks ascending,
  addresses in the order of the configured list, transactions in the reader's order):
  a prefix of them when it raises, and exactly one record for each of them when it
  returns. With the final flush the file holds the list in that same order.
\<close>

theorem calls_registered_in_visit_order:
  assumes "crawl self a b fl (st, w) = (r, st', w')"
  shows "\<exists>fcs. calls (state st') = calls (state st) @ fcs
           \<and> prefix fcs (built self (visit_order self a b))
           \<and> (r = None \<longrightarrow>
                map (build_function_call self) (visit_order self a b) = map Inr fcs
              \<and> (fl \<longrightarrow> files w' (pickle_file st) = Some (Pickled (state st'))))"
proof -
  from crawl_log [OF assms] obtain fcs where
    fcs: "extends (st, w) fcs (st', w')" "prefix fcs (built self (visit_order self a b))"
      "r = None \<longrightarrow> fcs = built self (visit_order self a b)
         \<and> (\<forall>tx \<in> set (visit_order self a b). buildable self tx)
         \<and> (fl \<longrightarrow> files w' (pickle_file st) = Some (Pickled (state st')))"
    by auto
  from fcs(1) have "calls (state st') = calls (state st) @ fcs"
    by (simp add: extends_def)
  with fcs(2,3) show ?thesis
    by (intro exI [of _ fcs]) (simp add: built_map)
qed

text \<open>
  C1, as the code has it. A transaction whose payload does not decode yields no record,
  and the exception leaves \<^verbatim>\<open>crawl\<close>: the scan ends at the first such transaction it
  meets, with the store and the file system as the transactions before it left them.
  Nothing the scan would meet later is visited, whether a transaction or a request the
  reader would not answer, and the final flush is not run. No crawl of that range then
  returns, whatever the store it starts from and whether or not it is to flush.
\<close>

theorem decode_error_aborts_crawl:
  assumes "scan self a b = map Visit pre @ Visit tx # post"
      and "for_each (process_transaction self) pre \<sigma> = (None, \<sigma>1)"
      and "decode_function_input self (tx_data tx) = Inl e"
  shows "crawl self a b fl \<sigma> = (Some e, \<sigma>1)
       \<and> build_function_call self tx = Inl e
       \<and> calls (state (fst \<sigma>1)) = calls (state (fst \<sigma>)) @ built self pre
       \<and> (\<forall>fl' \<sigma>'. fst (crawl self a b fl' \<sigma>') \<noteq> None)"
proof -
  from assms(3) have tx: "visit_step self (Visit tx) \<sigma>1 = (Some e, \<sigma>1)"
    by (simp add: process_transaction_def)
  from assms(2) have "for_each (visit_step self) (map Visit pre) \<sigma> = (None, \<sigma>1)"
    by (simp add: for_each_visits)
  then have "for_each (visit_step self) (map Visit pre @ Visit tx # post) \<sigma> = (Some e, \<sigma>1)"
    using tx by (simp add: for_each_append followed_by_def del: visit_step.simps)
  with assms(1) have "for_each (crawl_block self) [a..b] \<sigma> = (Some e, \<sigma>1)"
    by (simp add: crawl_blocks_scan)
  then have 1: "crawl self a b fl \<sigma> = (Some e, \<sigma>1)"
    by (simp add: crawl_def)
  from assms(3) have 2: "build_function_call self tx = Inl e"
    by (simp add: build_function_call_def)
  from transactions_log [OF assms(2)]
  have 3: "calls (state (fst \<sigma>1)) = calls (state (fst \<sigma>)) @ built self pre"
    by (auto simp: extends_def)
  from assms(1) have "Visit tx \<in> set (scan self a b)" by simp
  then have mem: "tx \<in> set (visit_order self a b)" by (rule visit_in_scan)
  have 4: "fst (crawl self a b fl' \<sigma>') \<noteq> None" for fl' \<sigma>'
  proof
    assume none: "fst (crawl self a b fl' \<sigma>') = None"
    obtain r \<sigma>2 where run: "crawl self a b fl' \<sigma>' = (r, \<sigma>2)"
      by (cases "crawl self a b fl' \<sigma>'")
    with none have "r = None" by simp
    with crawl_log [OF run] have "\<forall>tx \<in> set (visit_order self a b). buildable self tx"
      by auto
    then have "buildable self tx" using mem by blast
    with 2 show False by (simp add: buildable_def)
  qed
  from 1 2 3 4 show ?thesis by simp
qed

section \<open>The scan of the small chain\<close>

lemma ex_reader_ok: "reader_ok ex_crawler a b"
  by (simp add: reader_ok_iff ex_crawler_def Web3StateProvider_def ex_w3_def)

lemma ex_visit_5: "visit_order ex_crawler 5 5 = [ex_tx 5 ''0xBBB'' ''transfer'', ex_tx 5 ''0xAAA'' ''transfer'']"
  by (simp add: visit_order_def fetched_def upto.simps ex_defs)

lemma ex_visit_67: "visit_order ex_crawler 6 7 = [ex_tx 6 ''0xAAA'' ''garbage'', ex_tx 7 ''0xAAA'' ''transfer'']"
  by (simp add: visit_order_def fetched_def upto.simps ex_defs)

theorem calls_registered_in_visit_order_witness:
  "crawl ex_crawler 5 5 True (ex_store 100, ex_world1) =
     (None,
      (ex_store 100)\<lparr>state := \<lparr>last_crawled_block = 5,
                                calls = [(ex_call 5)\<lparr>contract_address := ''0xBBB''\<rparr>, ex_call 5]\<rparr>,
                      cache_size := 0\<rparr>,
      ex_world1\<lparr>dumps := 2,
                files := [''state.pickle'' \<mapsto> Pickled \<lparr>last_crawled_block = 5,
                   calls = [(ex_call 5)\<lparr>contract_address := ''0xBBB''\<rparr>, ex_call 5]\<rparr>]\<rparr>)
   \<and> (\<exists>fcs. [(ex_call 5)\<lparr>contract_address := ''0xBBB''\<rparr>, ex_call 5] = fcs
          \<and> map (build_function_call ex_crawler) (visit_order ex_crawler 5 5) = map Inr fcs)"
proof -
  have run: "crawl ex_crawler 5 5 True (ex_store 100, ex_world1) =
     (None,
      (ex_store 100)\<lparr>state := \<lparr>last_crawled_block = 5,
                                calls = [(ex_call 5)\<lparr>contract_address := ''0xBBB''\<rparr>, ex_call 5]\<rparr>,
                      cache_size := 0\<rparr>,
      ex_world1\<lparr>dumps := 2,
                files := [''state.pickle'' \<mapsto> Pickled \<lparr>last_crawled_block = 5,
                   calls = [(ex_call 5)\<lparr>contract_address := ''0xBBB''\<rparr>, ex_call 5]\<rparr>]\<rparr>)"
    by (simp add: ex_defs upto.simps)
  show ?thesis
    using run calls_registered_in_visit_order [OF run]
    by (simp add: ex_store_def initial_state_def)
qed

lemma ex_late_scan:
  "scan ex_late_crawler 5 7 =
     map Visit [ex_tx 5 ''0xBBB'' ''transfer'', ex_tx 5 ''0xAAA'' ''transfer'']
     @ Visit (ex_tx 6 ''0xAAA'' ''garbage'') # [ReadFails NotFoundError, ReadFails NotFoundError]"
  by (simp add: scan_def upto.simps ex_late_crawler_def ex_late_w3_def Web3StateProvider_def
        ex_block_def ex_tx_def)

lemma ex_late_pre:
  "for_each (process_transaction ex_late_crawler)
       [ex_tx 5 ''0xBBB'' ''transfer'', ex_tx 5 ''0xAAA'' ''transfer''] (ex_store 100, ex_world1)
   = (None,
      (ex_store 100)\<lparr>state := \<lparr>last_crawled_block = 5,
                                calls = [(ex_call 5)\<lparr>contract_address := ''0xBBB''\<rparr>, ex_call 5]\<rparr>,
                      cache_size := 2\<rparr>,
      ex_world1)"
  by (simp add: process_transaction_def ex_late_crawler_def ex_late_w3_def Web3StateProvider_def
        ex_decode_def ex_tx_def ex_store_def ex_call_def initial_state_def Let_def)

theorem decode_error_aborts_crawl_witness:
  "scan ex_late_crawler 5 7 =
     map Visit [ex_tx 5 ''0xBBB'' ''transfer'', ex_tx 5 ''0xAAA'' ''transfer'']
     @ Visit (ex_tx 6 ''0xAAA'' ''garbage'') # [ReadFails NotFoundError, ReadFails NotFoundError]
   \<and> decode_function_input ex_late_crawler (tx_data (ex_tx 6 ''0xAAA'' ''garbage'')) = Inl DecodeError
   \<and> crawl ex_late_crawler 5 7 True (ex_store 100, ex_world1) =
       (Some DecodeError,
        (ex_store 100)\<lparr>state := \<lparr>last_crawled_block = 5,
                                calls = [(ex_call 5)\<lparr>contract_address := ''0xBBB''\<rparr>, ex_call 5]\<rparr>,
                        cache_size := 2\<rparr>,
        ex_world1)"
proof -
  have h3: "decode_function_input ex_late_crawler (tx_data (ex_tx 6 ''0xAAA'' ''garbage'')) = Inl DecodeError"
    by (simp add: ex_late_crawler_def ex_decode_def ex_tx_def)
  show ?thesis
    using ex_late_scan h3 decode_error_aborts_crawl [OF ex_late_scan ex_late_pre h3, of True]
    by simp
qed

text \<open>
  C1 as the specification words it fails: the payload of the transaction in block 6 does
  not decode, and \<^verbatim>\<open>crawl(6, 7, True)\<close> raises the decode error. The transaction of
  block 7, which decodes, is not registered, and nothing is flushed.
\<close>

theorem decode_error_leaves_crawl_counterexample:
  "crawl ex_crawler 6 7 True (ex_store 100, ex_world1) = (Some DecodeError, ex_store 100, ex_world1)
   \<and> visit_order ex_crawler 6 7 = [ex_tx 6 ''0xAAA'' ''garbage'', ex_tx 7 ''0xAAA'' ''transfer'']
   \<and> build_function_call ex_crawler (ex_tx 7 ''0xAAA'' ''transfer'') = Inr (ex_call 7)"
  by (simp add: ex_defs upto.simps visit_order_def fetched_def build_function_call_def)

section \<open>What a crawl that returns has persisted\<close>

lemma build_function_call_fields:
  "build_function_call self tx = Inr fc \<Longrightarrow>
   block_number fc = tx_block_number tx \<and> transaction_hash fc = tx_hash tx
   \<and> contract_address fc = tx_to tx \<and> caller_address fc = tx_from tx"
  by (auto simp: build_function_call_def split: sum.splits prod.splits)

lemma built_set:
  "fc \<in> set (built self txs) \<Longrightarrow> \<exists>tx \<in> set txs. build_function_call self tx = Inr fc"
  by (induction txs) (auto simp: built_Nil built_Cons split: sum.splits)

lemma built_nonempty:
  assumes "txs \<noteq> []" and "\<forall>tx \<in> set txs. buildable self tx"
  shows "built self txs \<noteq> []"
proof -
  from built_map [OF assms(2)] have "length txs = length (built self txs)"
    by (metis length_map)
  with assms(1) show ?thesis by auto
qed

lemma visit_order_last_block:
  "a \<le> b \<Longrightarrow> visit_order self a b =
     visit_order self a (b - 1) @ concat (map (fetched self b) (contract_addresses self))"
  by (simp add: visit_order_def upto_rec2 [of a b])

lemma cursor_after_last_block:
  assumes ext: "extends \<sigma> (built self (visit_order self a b)) \<sigma>'"
      and ab: "a \<le> b"
      and ne: "concat (map (fetched self b) (contract_addresses self)) \<noteq> []"
      and bn: "\<forall>tx \<in> set (concat (map (fetched self b) (contract_addresses self))). tx_block_number tx = b"
      and ok: "\<forall>tx \<in> set (visit_order self a b). buildable self tx"
  shows "get_last_crawled_block (fst \<sigma>') = b"
proof -
  let ?blk = "concat (map (fetched self b) (contract_addresses self))"
  from ab have vo: "visit_order self a b = visit_order self a (b - 1) @ ?blk"
    by (rule visit_order_last_block)
  with ok have "\<forall>tx \<in> set ?blk. buildable self tx" by simp
  with ne have ne': "built self ?blk \<noteq> []" by (rule built_nonempty)
  then have "last (built self ?blk) \<in> set (built self ?blk)" by simp
  from built_set [OF this] obtain tx where
    tx: "tx \<in> set ?blk" "build_function_call self tx = Inr (last (built self ?blk))"
    by blast
  from bn tx(1) have "tx_block_number tx = b" by (rule bspec)
  with build_function_call_fields [OF tx(2)]
  have "block_number (last (built self ?blk)) = b" by simp
  moreover from ext have "get_last_crawled_block (fst \<sigma>') =
      last (get_last_crawled_block (fst \<sigma>) # map block_number (built self (visit_order self a b)))"
    by (simp add: extends_def)
  ultimately show ?thesis
    using ne' by (simp add: vo built_append last_map)
qed

lemma filter_split_mset:
  "(\<And>x. \<not> (P x \<and> Q x)) \<Longrightarrow>
   mset (filter P xs) + mset (filter Q xs) = mset (filter (\<lambda>x. P x \<or> Q x) xs)"
  by (induction xs) auto

lemma by_address_set:
  "set (concat (map (\<lambda>address. filter (\<lambda>tx. tx_to tx = address) txs) addresses))
     = set (filter (\<lambda>tx. tx_to tx \<in> set addresses) txs)"
  by auto

lemma by_address_mset:
  "distinct addresses \<Longrightarrow>
   mset (concat (map (\<lambda>address. filter (\<lambda>tx. tx_to tx = address) txs) addresses))
     = mset (filter (\<lambda>tx. tx_to tx \<in> set addresses) txs)"
proof (induction addresses)
  case Nil
  then show ?case by simp
next
  case (Cons address addresses)
  then have disj: "\<And>tx. \<not> (tx_to tx = address \<and> tx_to tx \<in> set addresses)" by auto
  have "mset (concat (map (\<lambda>address. filter (\<lambda>tx. tx_to tx = address) txs) (address # addresses)))
      = mset (filter (\<lambda>tx. tx_to tx = address) txs)
        + mset (filter (\<lambda>tx. tx_to tx \<in> set addresses) txs)"
    using Cons by simp
  also have "\<dots> = mset (filter (\<lambda>tx. tx_to tx = address \<or> tx_to tx \<in> set addresses) txs)"
    by (rule filter_split_mset) (rule disj)
  finally show ?case by simp
qed

lemma web3_block:
  assumes "ethereum_state_provider self = Web3StateProvider w3"
  shows "concat (map (fetched self bn) (contract_addresses self)) =
     (case eth_get_block w3 bn of
        Inl e \<Rightarrow> []
      | Inr block_data \<Rightarrow>
          concat (map (\<lambda>address. filter (\<lambda>tx. tx_to tx = address) (transactions block_data))
                      (contract_addresses self)))"
proof -
  have f: "fetched self bn = (\<lambda>address.
      case eth_get_block w3 bn of
        Inl e \<Rightarrow> []
      | Inr block_data \<Rightarrow> filter (\<lambda>tx. tx_to tx = address) (transactions block_data))"
    by (rule ext) (simp add: fetched_def assms Web3StateProvider_def split: sum.splits)
  show ?thesis
    by (cases "eth_get_block w3 bn") (simp_all add: f)
qed

lemma concat_map_set_cong:
  "(\<And>x. set (f x) = set (g x)) \<Longrightarrow> set (concat (map f xs)) = set (concat (map g xs))"
  by (induction xs) simp_all

lemma concat_map_mset_cong:
  "(\<And>x. mset (f x) = mset (g x)) \<Longrightarrow> mset (concat (map f xs)) = mset (concat (map g xs))"
  by (induction xs) simp_all

lemma web3_visit_set:
  assumes "ethereum_state_provider self = Web3StateProvider w3"
  shows "set (visit_order self a b) = set (matching_transactions w3 (contract_addresses self) a b)"
  unfolding visit_order_def matching_transactions_def
proof (rule concat_map_set_cong)
  fix bn
  show "set (concat (map (fetched self bn) (contract_addresses self))) =
        set (case eth_get_block w3 bn of Inl e \<Rightarrow> []
             | Inr block_data \<Rightarrow>
                 filter (\<lambda>tx. tx_to tx \<in> set (contract_addresses self)) (transactions block_data))"
    unfolding web3_block [OF assms]
    by (cases "eth_get_block w3 bn") (simp_all only: sum.case by_address_set)
qed

lemma web3_visit_mset:
  assumes "ethereum_state_provider self = Web3StateProvider w3"
      and "distinct (contract_addresses self)"
  shows "mset (visit_order self a b) = mset (matching_transactions w3 (contract_addresses self) a b)"
  unfolding visit_order_def matching_transactions_def
proof (rule concat_map_mset_cong)
  fix bn
  show "mset (concat (map (fetched self bn) (contract_addresses self))) =
        mset (case eth_get_block w3 bn of Inl e \<Rightarrow> []
             | Inr block_data \<Rightarrow>
                 filter (\<lambda>tx. tx_to tx \<in> set (contract_addresses self)) (transactions block_data))"
    unfolding web3_block [OF assms(1)]
    by (cases "eth_get_block w3 bn") (simp_all only: sum.case by_address_mset [OF assms(2)])
qed

lemma built_set_iff:
  "set (built self txs) = {fc. \<exists>tx \<in> set txs. build_function_call self tx = Inr fc}"
  by (induction txs) (auto simp: built_Nil built_Cons split: sum.splits)

lemma built_mset_cong:
  assumes "mset xs = mset ys"
  shows "mset (built self xs) = mset (built self ys)"
proof -
  have "mset (built self zs) =
      (\<Sum>tx \<in># mset zs. mset (case build_function_call self tx of Inl e \<Rightarrow> [] | Inr fc \<Rightarrow> [fc]))" for zs
    by (induction zs) (simp_all add: built_Nil built_Cons)
  with assms show ?thesis by simp
qed



text \<open>
  C2, as the code has it. When the reader answers every request of the range, a record
  can be built from every transaction it returns and every write succeeds,
  \<^verbatim>\<open>crawl(a, b, flush_state=True)\<close> returns, and the pickled list of calls is the list
  the store held before the crawl followed by the records of the transactions the scan
  visits, one for each visit, in the order of the scan. With \<^verbatim>\<open>Web3StateProvider\<close> the
  set of these records is exactly the set of the records of the transactions of the
  blocks \<open>a..b\<close> whose destination is a watched address; an address listed twice is
  scanned twice, and when no address is listed twice every such transaction has exactly
  one record. The cursor is \<open>b\<close> when block \<open>b\<close> holds at least one such transaction,
  numbered \<open>b\<close>.
\<close>

theorem crawl_persists_matching_calls:
  assumes "reader_ok self a b"
      and "\<forall>tx \<in> set (visit_order self a b). buildable self tx"
      and "writes_ok w"
  shows "\<exists>st' w' fcs. crawl self a b True (st, w) = (None, st', w')
            \<and> map (build_function_call self) (visit_order self a b) = map Inr fcs
            \<and> calls (state st') = calls (state st) @ fcs
            \<and> files w' (pickle_file st) = Some (Pickled (state st'))
            \<and> (a \<le> b \<and> concat (map (fetched self b) (contract_addresses self)) \<noteq> []
                 \<and> (\<forall>tx \<in> set (concat (map (fetched self b) (contract_addresses self))).
                       tx_block_number tx = b)
                \<longrightarrow> get_last_crawled_block st' = b)
            \<and> (ethereum_state_provider self = Web3StateProvider w3 \<longrightarrow>
                  set fcs = {fc. \<exists>tx \<in> set (matching_transactions w3 (contract_addresses self) a b).
                                   build_function_call self tx = Inr fc}
                \<and> (distinct (contract_addresses self) \<longrightarrow>
                      mset (map Inr fcs) =
                        mset (map (build_function_call self)
                                  (matching_transactions w3 (contract_addresses self) a b))))"
proof -
  let ?fcs = "built self (visit_order self a b)"
  obtain r st' w' where run: "crawl self a b True (st, w) = (r, st', w')"
    by (metis prod_cases3)
  from crawl_total [OF assms(1,2), of "(st, w)" True] assms(3) run have r: "r = None"
    by simp
  from crawl_log [OF run] r have
    ext: "extends (st, w) ?fcs (st', w')" and
    stored: "files w' (pickle_file st) = Some (Pickled (state st'))"
    by auto
  from ext have app: "calls (state st') = calls (state st) @ ?fcs"
    by (simp add: extends_def)
  have cur: "a \<le> b \<and> concat (map (fetched self b) (contract_addresses self)) \<noteq> []
                 \<and> (\<forall>tx \<in> set (concat (map (fetched self b) (contract_addresses self))).
                       tx_block_number tx = b)
                \<longrightarrow> get_last_crawled_block st' = b"
    using cursor_after_last_block [OF ext _ _ _ assms(2)] by simp
  have recs: "map (build_function_call self) (visit_order self a b) = map Inr ?fcs"
    by (rule built_map [OF assms(2)])
  have chain_set: "set ?fcs = {fc. \<exists>tx \<in> set (matching_transactions w3 (contract_addresses self) a b).
                                   build_function_call self tx = Inr fc}"
    if "ethereum_state_provider self = Web3StateProvider w3"
    by (simp only: built_set_iff web3_visit_set [OF that])
  have chain_mset: "mset (map Inr ?fcs) =
                        mset (map (build_function_call self)
                                  (matching_transactions w3 (contract_addresses self) a b))"
    if "ethereum_state_provider self = Web3StateProvider w3" "distinct (contract_addresses self)"
  proof -
    have "mset (map Inr ?fcs) = image_mset (build_function_call self) (mset (visit_order self a b))"
      by (simp only: recs [symmetric] mset_map)
    also have "\<dots> = image_mset (build_function_call self)
                        (mset (matching_transactions w3 (contract_addresses self) a b))"
      by (simp only: web3_visit_mset [OF that])
    finally show ?thesis by (simp only: mset_map)
  qed
  from run r recs app stored cur chain_set chain_mset show ?thesis
    by (intro exI [of _ st'] exI [of _ w'] exI [of _ ?fcs]) blast
qed

text \<open>
  C8. Crawling the same range twice on the same chain appends the same records a second
  time: the list after the second crawl is the list after the first followed by another
  copy of what the first appended. Stated for crawls that meet no failure.
\<close>

theorem recrawl_appends_duplicates:
  assumes "reader_ok self a b"
      and "\<forall>tx \<in> set (visit_order self a b). buildable self tx"
      and "writes_ok w"
  shows "\<exists>st1 w1 st2 w2 fcs.
           crawl self a b fl (st, w) = (None, st1, w1)
         \<and> crawl self a b fl' (st1, w1) = (None, st2, w2)
         \<and> map (build_function_call self) (visit_order self a b) = map Inr fcs
         \<and> calls (state st1) = calls (state st) @ fcs
         \<and> calls (state st2) = calls (state st1) @ fcs"
proof -
  obtain r1 st1 w1 where run1: "crawl self a b fl (st, w) = (r1, st1, w1)"
    by (metis prod_cases3)
  from crawl_total [OF assms(1,2), of "(st, w)" fl] assms(3) run1
  have r1: "r1 = None" and w1: "writes_ok w1"
    by simp_all
  obtain r2 st2 w2 where run2: "crawl self a b fl' (st1, w1) = (r2, st2, w2)"
    by (metis prod_cases3)
  from crawl_total [OF assms(1,2), of "(st1, w1)" fl'] w1 run2 have r2: "r2 = None"
    by simp
  from crawl_log [OF run1] r1 have "calls (state st1) = calls (state st) @ built self (visit_order self a b)"
    by (auto simp: extends_def)
  moreover from crawl_log [OF run2] r2 have "calls (state st2) = calls (state st1) @ built self (visit_order self a b)"
    by (auto simp: extends_def)
  ultimately show ?thesis
    using run1 run2 r1 r2 built_map [OF assms(2)]
    by (intro exI [of _ st1] exI [of _ w1] exI [of _ st2] exI [of _ w2]
          exI [of _ "built self (visit_order self a b)"]) simp
qed

section \<open>Crawls of the small chain that return\<close>

lemma ex_visit_78: "visit_order ex_crawler 7 8 = [ex_tx 7 ''0xAAA'' ''transfer'']"
  by (simp add: visit_order_def fetched_def upto.simps ex_defs)

lemma ex_buildable: "buildable ex_crawler (ex_tx bn address ''transfer'')"
  by (simp add: buildable_def build_function_call_def ex_defs)

lemma ex_writes_ok: "writes_ok ex_world1"
  by (simp add: writes_ok_def ex_world1_def)

text \<open>
  C2 as the specification words it fails. A store resumed with one call of block 3 crawls
  the blocks 7 and 8, of which only block 7 holds a transaction to a watched address.
  The crawl returns; the cursor is 7, not 8, and the pickled list holds the earlier call
  besides the record of the one transaction of the range.
\<close>

theorem crawl_persists_matching_calls_counterexample:
  "fst (crawl ex_crawler 7 8 True (ex_resumed, ex_world1)) = None
   \<and> get_last_crawled_block (fst (snd (crawl ex_crawler 7 8 True (ex_resumed, ex_world1)))) = 7
   \<and> get_last_crawled_block (fst (snd (crawl ex_crawler 7 8 True (ex_resumed, ex_world1)))) \<noteq> 8
   \<and> files (snd (snd (crawl ex_crawler 7 8 True (ex_resumed, ex_world1)))) ''state.pickle''
       = Some (Pickled \<lparr>last_crawled_block = 7, calls = [ex_call 3, ex_call 7]\<rparr>)
   \<and> visit_order ex_crawler 7 8 = [ex_tx 7 ''0xAAA'' ''transfer'']
   \<and> build_function_call ex_crawler (ex_tx 7 ''0xAAA'' ''transfer'') = Inr (ex_call 7)
   \<and> ex_call 3 \<noteq> ex_call 7"
  by (simp add: ex_defs ex_resumed_def upto.simps visit_order_def fetched_def
        build_function_call_def get_last_crawled_block_def)

theorem crawl_persists_matching_calls_witness:
  "visit_order ex_crawler 5 5 = [ex_tx 5 ''0xBBB'' ''transfer'', ex_tx 5 ''0xAAA'' ''transfer'']
   \<and> matching_transactions ex_w3 (contract_addresses ex_crawler) 5 5
        = [ex_tx 5 ''0xAAA'' ''transfer'', ex_tx 5 ''0xBBB'' ''transfer'']
   \<and> (\<exists>st' w'. crawl ex_crawler 5 5 True (ex_resumed, ex_world1) = (None, st', w')
         \<and> calls (state st') = [ex_call 3, (ex_call 5)\<lparr>contract_address := ''0xBBB''\<rparr>, ex_call 5]
         \<and> files w' ''state.pickle'' = Some (Pickled (state st'))
         \<and> get_last_crawled_block st' = 5
         \<and> mset [(ex_call 5)\<lparr>contract_address := ''0xBBB''\<rparr>, ex_call 5]
             = mset (built ex_crawler (matching_transactions ex_w3 (contract_addresses ex_crawler) 5 5)))"
proof -
  have h1: "reader_ok ex_crawler 5 5" by (rule ex_reader_ok)
  have h2: "\<forall>tx \<in> set (visit_order ex_crawler 5 5). buildable ex_crawler tx"
    by (simp add: ex_visit_5 ex_buildable)
  have blk: "concat (map (fetched ex_crawler 5) (contract_addresses ex_crawler))
      = [ex_tx 5 ''0xBBB'' ''transfer'', ex_tx 5 ''0xAAA'' ''transfer'']"
    by (simp add: fetched_def ex_defs)
  have b: "build_function_call ex_crawler (ex_tx 5 ''0xBBB'' ''transfer'') = Inr ((ex_call 5)\<lparr>contract_address := ''0xBBB''\<rparr>)"
      "build_function_call ex_crawler (ex_tx 5 ''0xAAA'' ''transfer'') = Inr (ex_call 5)"
    by (simp_all add: build_function_call_def ex_defs)
  have m: "matching_transactions ex_w3 (contract_addresses ex_crawler) 5 5
        = [ex_tx 5 ''0xAAA'' ''transfer'', ex_tx 5 ''0xBBB'' ''transfer'']"
    by (simp add: matching_transactions_def upto.simps ex_w3_def ex_block_def ex_tx_def ex_crawler_def)
  have p: "ethereum_state_provider ex_crawler = Web3StateProvider ex_w3"
    by (simp add: ex_crawler_def)
  have d: "distinct (contract_addresses ex_crawler)"
    by (simp add: ex_crawler_def)
  from crawl_persists_matching_calls [OF h1 h2 ex_writes_ok, of ex_resumed ex_w3]
  obtain st' w' fcs where r:
    "crawl ex_crawler 5 5 True (ex_resumed, ex_world1) = (None, st', w')"
    "map (build_function_call ex_crawler) (visit_order ex_crawler 5 5) = map Inr fcs"
    "calls (state st') = calls (state ex_resumed) @ fcs"
    "files w' (pickle_file ex_resumed) = Some (Pickled (state st'))"
    "(5::int) \<le> 5 \<and> concat (map (fetched ex_crawler 5) (contract_addresses ex_crawler)) \<noteq> []
       \<and> (\<forall>tx \<in> set (concat (map (fetched ex_crawler 5) (contract_addresses ex_crawler))).
             tx_block_number tx = 5)
     \<longrightarrow> get_last_crawled_block st' = 5"
    "ethereum_state_provider ex_crawler = Web3StateProvider ex_w3 \<longrightarrow>
       set fcs = {fc. \<exists>tx \<in> set (matching_transactions ex_w3 (contract_addresses ex_crawler) 5 5).
                        build_function_call ex_crawler tx = Inr fc}
     \<and> (distinct (contract_addresses ex_crawler) \<longrightarrow>
           mset (map Inr fcs) =
             mset (map (build_function_call ex_crawler)
                       (matching_transactions ex_w3 (contract_addresses ex_crawler) 5 5)))"
    by blast
  from r(2) have fcs: "fcs = [(ex_call 5)\<lparr>contract_address := ''0xBBB''\<rparr>, ex_call 5]"
    by (auto simp: ex_visit_5 b)
  from r(5) have cur: "get_last_crawled_block st' = 5"
    by (simp add: blk) (simp add: ex_tx_def)
  from r(6) p d have "mset (map Inr fcs) =
             mset (map (build_function_call ex_crawler)
                       (matching_transactions ex_w3 (contract_addresses ex_crawler) 5 5))"
    by blast
  then have ms: "mset [(ex_call 5)\<lparr>contract_address := ''0xBBB''\<rparr>, ex_call 5]
             = mset (built ex_crawler (matching_transactions ex_w3 (contract_addresses ex_crawler) 5 5))"
    unfolding fcs m by (simp add: built_Cons built_Nil b)
  from r(1,3,4) fcs cur ms show ?thesis
    by (simp add: ex_visit_5 m ex_resumed_def ex_store_def)
qed

theorem recrawl_appends_duplicates_witness:
  "\<exists>st1 w1 st2 w2.
      crawl ex_crawler 7 8 False (ex_resumed, ex_world1) = (None, st1, w1)
    \<and> crawl ex_crawler 7 8 True (st1, w1) = (None, st2, w2)
    \<and> calls (state st1) = [ex_call 3, ex_call 7]
    \<and> calls (state st2) = [ex_call 3, ex_call 7, ex_call 7]"
proof -
  have h1: "reader_ok ex_crawler 7 8" by (rule ex_reader_ok)
  have h2: "\<forall>tx \<in> set (visit_order ex_crawler 7 8). buildable ex_crawler tx"
    by (simp add: ex_visit_78 ex_buildable)
  have b: "build_function_call ex_crawler (ex_tx 7 ''0xAAA'' ''transfer'') = Inr (ex_call 7)"
    by (simp add: build_function_call_def ex_defs)
  from recrawl_appends_duplicates [OF h1 h2 ex_writes_ok, of False ex_resumed True]
  obtain st1 w1 st2 w2 fcs where r:
    "crawl ex_crawler 7 8 False (ex_resumed, ex_world1) = (None, st1, w1)"
    "crawl ex_crawler 7 8 True (st1, w1) = (None, st2, w2)"
    "map (build_function_call ex_crawler) (visit_order ex_crawler 7 8) = map Inr fcs"
    "calls (state st1) = calls (state ex_resumed) @ fcs"
    "calls (state st2) = calls (state st1) @ fcs"
    by blast
  from r(3) have "fcs = [ex_call 7]" by (auto simp: ex_visit_78 b)
  with r show ?thesis
    by (intro exI [of _ st1] exI [of _ w1] exI [of _ st2] exI [of _ w2])
       (simp add: ex_resumed_def)
qed

end
